theory Spec2Isabelle
  imports
    Main
    "HOL-Library.AList"
    "HOL-Library.Char_ord"
    "HOL-Library.List_Lexorder"
    "HOL-Library.Product_Lexorder"
begin

unbundle bit_operations_syntax

section \<open>Data model\<close>

text \<open>
  The three scripts share one shape: a hardcoded \<open>formula\<close> over a dictionary, a
  \<open>Node\<close> dataclass, and a builder class (\<open>ROBDD\<close> in \<open>formula1_robdd.py\<close>,
  \<open>BDD\<close> in the two \<open>*_just_bdd.py\<close> files).

  A Python dictionary \<open>Dict[str, int]\<close> is an association list with distinct keys in
  insertion order; \<open>d = dict(e); d[v] = b\<close> is \<open>AList.update v b e\<close>, which overwrites
  in place or appends. A formula reads its dictionary only through \<open>env[k]\<close>, so a
  formula is a function of the lookup map, and \<open>env[k]\<close> on an absent key is the
  \<open>KeyError\<close> branch. \<open>var_order[idx]\<close> beyond the list is the \<open>IndexError\<close> branch.
\<close>

datatype error = KeyError string | IndexError

type_synonym env = "(string \<times> int) list"

type_synonym formula_fn = "(string \<rightharpoonup> int) \<Rightarrow> error + int"

definition getitem :: "(string \<rightharpoonup> int) \<Rightarrow> string \<Rightarrow> error + int" where
  "getitem e k = (case e k of None \<Rightarrow> Inl (KeyError k) | Some x \<Rightarrow> Inr x)"

text \<open>\<open>formula\<close> of \<open>formula1_robdd.py\<close> and \<open>formula1_just_bdd.py\<close> (the same text in both).\<close>

definition formula1 :: formula_fn where
  "formula1 e =
     (case getitem e ''a'' of Inl x \<Rightarrow> Inl x | Inr a \<Rightarrow>
      case getitem e ''b'' of Inl x \<Rightarrow> Inl x | Inr b \<Rightarrow>
      case getitem e ''c'' of Inl x \<Rightarrow> Inl x | Inr c \<Rightarrow>
      case getitem e ''d'' of Inl x \<Rightarrow> Inl x | Inr d \<Rightarrow>
        (let left = a AND (1 - c);
             right = b XOR d
         in Inr (if (left OR right) \<noteq> 0 then 1 else 0)))"

text \<open>\<open>formula\<close> of \<open>formula2_just_bdd.py\<close>.\<close>

definition formula2 :: formula_fn where
  "formula2 e =
     (case getitem e ''x1'' of Inl x \<Rightarrow> Inl x | Inr x1 \<Rightarrow>
      case getitem e ''x2'' of Inl x \<Rightarrow> Inl x | Inr x2 \<Rightarrow>
      case getitem e ''x3'' of Inl x \<Rightarrow> Inl x | Inr x3 \<Rightarrow>
      case getitem e ''x4'' of Inl x \<Rightarrow> Inl x | Inr x4 \<Rightarrow>
      case getitem e ''x5'' of Inl x \<Rightarrow> Inl x | Inr x5 \<Rightarrow>
        (let ones = x1 + x2 + x3 + x4 + x5
         in Inr (if ones \<ge> 3 then 1 else 0)))"

record Node =
  var :: "string option"
  low :: nat
  high :: nat

text \<open>
  The fields of class \<open>BDD\<close>; class \<open>ROBDD\<close> has the same two fields and adds the unique
  table and the memo table, so it is modelled as the extension of the record.
\<close>

record BDD =
  var_order :: "string list"
  nodes :: "Node list"

record ROBDD = BDD +
  unique_table :: "(string \<times> nat \<times> nat) \<rightharpoonup> nat"
  memo :: "(nat \<times> (string \<times> int) list) \<rightharpoonup> nat"

definition terminal0 :: Node where
  "terminal0 = \<lparr>var = None, low = 0, high = 0\<rparr>"

definition terminal1 :: Node where
  "terminal1 = \<lparr>var = None, low = 1, high = 1\<rparr>"

text \<open>\<open>BDD.__init__\<close> and \<open>ROBDD.__init__\<close>.\<close>

definition BDD_init :: "string list \<Rightarrow> BDD" where
  "BDD_init order = \<lparr>var_order = order, nodes = [terminal0, terminal1]\<rparr>"

definition ROBDD_init :: "string list \<Rightarrow> ROBDD" where
  "ROBDD_init order =
     \<lparr>var_order = order, nodes = [terminal0, terminal1],
      unique_table = Map.empty, memo = Map.empty\<rparr>"

section \<open>The unreduced builder\<close>

text \<open>\<open>BDD.new_node\<close>.\<close>

definition new_node :: "string \<Rightarrow> nat \<Rightarrow> nat \<Rightarrow> BDD \<Rightarrow> nat \<times> BDD" where
  "new_node v lo hi s =
     (let nid = length (nodes s)
      in (nid, s\<lparr>nodes := nodes s @ [\<lparr>var = Some v, low = lo, high = hi\<rparr>]\<rparr>))"

text \<open>
  \<open>BDD.build\<close>, with the formula it calls as a parameter. \<open>idx\<close> is the depth, counted
  from 0 by the entry point and only ever incremented.
\<close>

function bdd_build :: "formula_fn \<Rightarrow> nat \<Rightarrow> env \<Rightarrow> BDD \<Rightarrow> error + (nat \<times> BDD)" where
  "bdd_build f idx env_partial s =
     (if idx = length (var_order s) then
        (case f (map_of env_partial) of
           Inl e \<Rightarrow> Inl e
         | Inr val \<Rightarrow> Inr (if val = 1 then 1 else 0, s))
      else if length (var_order s) < idx then Inl IndexError
      else
        (let v = var_order s ! idx in
         case bdd_build f (idx + 1) (AList.update v 0 env_partial) s of
           Inl e \<Rightarrow> Inl e
         | Inr (low_id, s1) \<Rightarrow>
             (case bdd_build f (idx + 1) (AList.update v 1 env_partial) s1 of
                Inl e \<Rightarrow> Inl e
              | Inr (high_id, s2) \<Rightarrow> Inr (new_node v low_id high_id s2))))"
  by pat_completeness auto

section \<open>The reduced builder\<close>

text \<open>\<open>ROBDD.mk\<close>: rule 1, then rule 2, then allocation.\<close>

definition mk :: "string \<Rightarrow> nat \<Rightarrow> nat \<Rightarrow> ROBDD \<Rightarrow> nat \<times> ROBDD" where
  "mk v lo hi s =
     (if lo = hi then (lo, s)
      else
        (case unique_table s (v, lo, hi) of
           Some n \<Rightarrow> (n, s)
         | None \<Rightarrow>
             (let nid = length (nodes s)
              in (nid, s\<lparr>nodes := nodes s @ [\<lparr>var = Some v, low = lo, high = hi\<rparr>],
                         unique_table := (unique_table s)((v, lo, hi) \<mapsto> nid)\<rparr>))))"

text \<open>
  \<open>ROBDD.build\<close>. The memo key is \<open>(idx, tuple(sorted(env_partial.items())))\<close>: the
  items sorted as pairs, strings by code point.
\<close>

function robdd_build :: "formula_fn \<Rightarrow> nat \<Rightarrow> env \<Rightarrow> ROBDD \<Rightarrow> error + (nat \<times> ROBDD)" where
  "robdd_build f idx env_partial s =
     (let memo_key = (idx, sort env_partial) in
      case memo s memo_key of
        Some n \<Rightarrow> Inr (n, s)
      | None \<Rightarrow>
          if idx = length (var_order s) then
            (case f (map_of env_partial) of
               Inl e \<Rightarrow> Inl e
             | Inr val \<Rightarrow>
                 (let out = (if val = 1 then 1 else 0)
                  in Inr (out, s\<lparr>memo := (memo s)(memo_key \<mapsto> out)\<rparr>)))
          else if length (var_order s) < idx then Inl IndexError
          else
            (let v = var_order s ! idx in
             case robdd_build f (idx + 1) (AList.update v 0 env_partial) s of
               Inl e \<Rightarrow> Inl e
             | Inr (low_id, s1) \<Rightarrow>
                 (case robdd_build f (idx + 1) (AList.update v 1 env_partial) s1 of
                    Inl e \<Rightarrow> Inl e
                  | Inr (high_id, s2) \<Rightarrow>
                      (case mk v low_id high_id s2 of
                         (out, s3) \<Rightarrow> Inr (out, s3\<lparr>memo := (memo s3)(memo_key \<mapsto> out)\<rparr>)))))"
  by pat_completeness auto

section \<open>Termination of the two builders\<close>

text \<open>
  Both recursions run on \<open>length var_order - idx\<close>. The second recursive call receives
  the state returned by the first, so termination needs that a call leaves
  \<open>var_order\<close> as it found it.
\<close>

lemma new_node_var_order: "var_order (snd (new_node v lo hi s)) = var_order s"
  by (simp add: new_node_def Let_def)

lemma mk_var_order: "var_order (snd (mk v lo hi s)) = var_order s"
  by (simp add: mk_def Let_def split: option.splits)

lemma bdd_build_var_order_dom:
  "bdd_build_dom (f, idx, e, s) \<Longrightarrow> bdd_build f idx e s = Inr (r, s') \<Longrightarrow>
   var_order s' = var_order s"
proof (induction f idx e s arbitrary: r s' rule: bdd_build.pinduct)
  case (1 f idx e s)
  note eq = "1.prems"[unfolded bdd_build.psimps[OF "1.hyps"] Let_def]
  show ?case
  proof (cases "idx = length (var_order s)")
    case True
    with eq show ?thesis by (auto split: sum.splits)
  next
    case False
    with eq have lt: "\<not> length (var_order s) < idx" by (auto split: if_splits)
    let ?v = "var_order s ! idx"
    from eq False lt obtain lo s1 hi s2 where
      b1: "bdd_build f (idx + 1) (AList.update ?v 0 e) s = Inr (lo, s1)" and
      b2: "bdd_build f (idx + 1) (AList.update ?v 1 e) s1 = Inr (hi, s2)" and
      m: "s' = snd (new_node ?v lo hi s2)"
      by (auto split: sum.splits prod.splits)
    have v1: "var_order s1 = var_order s"
      using "1.IH"(1)[OF False lt refl b1] .
    have v2: "var_order s2 = var_order s1"
      using "1.IH"(2)[OF False lt refl b1 refl b2] .
    from m v1 v2 show ?thesis by (simp add: new_node_var_order)
  qed
qed

termination bdd_build
proof (relation "measure (\<lambda>(f, idx, e, s). length (var_order s) - idx)", goal_cases)
  case 1
  show ?case by simp
next
  case (2 f idx e s v)
  then show ?case by auto
next
  case (3 f idx e s v b lo s1)
  then show ?case
    using bdd_build_var_order_dom[of f "idx + 1" "AList.update v 0 e" s lo s1] by auto
qed

lemma robdd_build_var_order_dom:
  "robdd_build_dom (f, idx, e, s) \<Longrightarrow> robdd_build f idx e s = Inr (r, s') \<Longrightarrow>
   var_order s' = var_order s"
proof (induction f idx e s arbitrary: r s' rule: robdd_build.pinduct)
  case (1 f idx e s)
  note eq = "1.prems"[unfolded robdd_build.psimps[OF "1.hyps"] Let_def]
  show ?case
  proof (cases "memo s (idx, sort e)")
    case (Some n)
    with eq show ?thesis by simp
  next
    case None
    show ?thesis
    proof (cases "idx = length (var_order s)")
      case True
      with eq None show ?thesis by (auto split: sum.splits)
    next
      case False
      with eq None have lt: "\<not> length (var_order s) < idx" by (auto split: if_splits)
      let ?v = "var_order s ! idx"
      from eq None False lt obtain lo s1 hi s2 where
        b1: "robdd_build f (idx + 1) (AList.update ?v 0 e) s = Inr (lo, s1)" and
        b2: "robdd_build f (idx + 1) (AList.update ?v 1 e) s1 = Inr (hi, s2)" and
        m: "var_order s' = var_order (snd (mk ?v lo hi s2))"
        by (auto split: sum.splits prod.splits)
      have v1: "var_order s1 = var_order s"
        using "1.IH"(1)[OF refl None False lt refl b1] .
      have v2: "var_order s2 = var_order s1"
        using "1.IH"(2)[OF refl None False lt refl b1 refl b2] .
      from m v1 v2 show ?thesis by (simp add: mk_var_order)
    qed
  qed
qed

termination robdd_build
proof (relation "measure (\<lambda>(f, idx, e, s). length (var_order s) - idx)", goal_cases)
  case 1
  show ?case by simp
next
  case (2 f idx e s k v)
  then show ?case by auto
next
  case (3 f idx e s k v b lo s1)
  then show ?case
    using robdd_build_var_order_dom[of f "idx + 1" "AList.update v 0 e" s lo s1] by auto
qed

declare bdd_build.simps [simp del]
declare robdd_build.simps [simp del]

section \<open>Reading a diagram\<close>

text \<open>
  The traversal the specification speaks of: from node \<open>n\<close>, a node without variable is
  a terminal and is the result; otherwise the low edge is taken when the assignment
  gives the node's variable 0 and the high edge when it gives 1. The first argument
  bounds the number of nodes visited; \<open>None\<close> means the bound was reached, an id was
  outside the store, or the assignment gave the variable no value in \<open>{0, 1}\<close>.
\<close>

fun traverse :: "nat \<Rightarrow> Node list \<Rightarrow> (string \<rightharpoonup> int) \<Rightarrow> nat \<Rightarrow> nat option" where
  "traverse 0 ns A n = None"
| "traverse (Suc k) ns A n =
     (if length ns \<le> n then None
      else
        (case var (ns ! n) of
           None \<Rightarrow> Some n
         | Some v \<Rightarrow>
             (case A v of
                None \<Rightarrow> None
              | Some b \<Rightarrow>
                  if b = 0 then traverse k ns A (low (ns ! n))
                  else if b = 1 then traverse k ns A (high (ns ! n))
                  else None)))"

section \<open>The configured inputs\<close>

text \<open>The orders of the \<open>__main__\<close> blocks, and the node store the reduced build leaves for the first.\<close>

definition order1 :: "string list" where
  "order1 = [''a'', ''c'', ''b'', ''d'']"

definition order2 :: "string list" where
  "order2 = [''x1'', ''x2'', ''x3'', ''x4'', ''x5'']"

definition robdd_nodes1 :: "Node list" where
  "robdd_nodes1 =
     [terminal0, terminal1,
      \<lparr>var = Some ''d'', low = 0, high = 1\<rparr>,
      \<lparr>var = Some ''d'', low = 1, high = 0\<rparr>,
      \<lparr>var = Some ''b'', low = 2, high = 3\<rparr>,
      \<lparr>var = Some ''c'', low = 1, high = 4\<rparr>,
      \<lparr>var = Some ''a'', low = 4, high = 5\<rparr>]"

text \<open>The two assignments of scenario A, as dictionaries.\<close>

definition scenarioA_true :: env where
  "scenarioA_true = [(''a'', 1), (''c'', 0), (''b'', 0), (''d'', 0)]"

definition scenarioA_false :: env where
  "scenarioA_false = [(''a'', 0), (''c'', 1), (''b'', 0), (''d'', 0)]"

text \<open>The edges of a diagram: from each decision node to its two children.\<close>

definition edges :: "Node list \<Rightarrow> (nat \<times> nat) set" where
  "edges ns = {(j, c). 2 \<le> j \<and> j < length ns \<and> (c = low (ns ! j) \<or> c = high (ns ! j))}"

section \<open>What a run does\<close>

text \<open>
  Memoisation and the arguments the formula receives are properties of what happens
  during a build, not of its result. \<open>robdd_trace\<close> and \<open>bdd_trace\<close> follow
  the control flow of the two builders, with the states the builders themselves
  return, and list the events in order: \<open>Oracle e\<close> for a call \<open>formula(e)\<close>, and
  \<open>Computed k\<close> for an assignment \<open>self.memo[k] = out\<close>, which ends the one computation
  of the subproblem \<open>k\<close>.
\<close>

datatype event = Oracle env | Computed "nat \<times> (string \<times> int) list"

function robdd_trace :: "formula_fn \<Rightarrow> nat \<Rightarrow> env \<Rightarrow> ROBDD \<Rightarrow> event list" where
  "robdd_trace f idx env_partial s =
     (let memo_key = (idx, sort env_partial) in
      case memo s memo_key of
        Some n \<Rightarrow> []
      | None \<Rightarrow>
          if idx = length (var_order s) then
            (case f (map_of env_partial) of
               Inl e \<Rightarrow> [Oracle env_partial]
             | Inr val \<Rightarrow> [Oracle env_partial, Computed memo_key])
          else if length (var_order s) < idx then []
          else
            (let v = var_order s ! idx;
                 t0 = robdd_trace f (idx + 1) (AList.update v 0 env_partial) s in
             case robdd_build f (idx + 1) (AList.update v 0 env_partial) s of
               Inl e \<Rightarrow> t0
             | Inr (low_id, s1) \<Rightarrow>
                 (let t1 = robdd_trace f (idx + 1) (AList.update v 1 env_partial) s1 in
                  case robdd_build f (idx + 1) (AList.update v 1 env_partial) s1 of
                    Inl e \<Rightarrow> t0 @ t1
                  | Inr (high_id, s2) \<Rightarrow> t0 @ t1 @ [Computed memo_key])))"
  by pat_completeness auto

function bdd_trace :: "formula_fn \<Rightarrow> nat \<Rightarrow> env \<Rightarrow> BDD \<Rightarrow> event list" where
  "bdd_trace f idx env_partial s =
     (if idx = length (var_order s) then [Oracle env_partial]
      else if length (var_order s) < idx then []
      else
        (let v = var_order s ! idx;
             t0 = bdd_trace f (idx + 1) (AList.update v 0 env_partial) s in
         case bdd_build f (idx + 1) (AList.update v 0 env_partial) s of
           Inl e \<Rightarrow> t0
         | Inr (low_id, s1) \<Rightarrow> t0 @ bdd_trace f (idx + 1) (AList.update v 1 env_partial) s1))"
  by pat_completeness auto

fun oracle_calls :: "event list \<Rightarrow> env list" where
  "oracle_calls [] = []"
| "oracle_calls (Oracle e # t) = e # oracle_calls t"
| "oracle_calls (Computed k # t) = oracle_calls t"

fun computed_keys :: "event list \<Rightarrow> (nat \<times> (string \<times> int) list) list" where
  "computed_keys [] = []"
| "computed_keys (Oracle e # t) = computed_keys t"
| "computed_keys (Computed k # t) = k # computed_keys t"

text \<open>
  A complete assignment over an order, as a dictionary: every name of the order bound
  once, to 0 or to 1. \<open>env_ok\<close> is what the partial assignment of a call at depth
  \<open>idx\<close> satisfies.
\<close>

definition complete :: "string list \<Rightarrow> env \<Rightarrow> bool" where
  "complete order A \<longleftrightarrow>
     distinct (map fst A) \<and> set (map fst A) = set order \<and>
     (\<forall>p \<in> set A. snd p = 0 \<or> snd p = 1)"

definition env_ok :: "string list \<Rightarrow> nat \<Rightarrow> env \<Rightarrow> bool" where
  "env_ok order idx e \<longleftrightarrow>
     distinct (map fst e) \<and> fst ` set e \<subseteq> set order \<and>
     set order \<subseteq> fst ` set e \<union> set (drop idx order) \<and>
     (\<forall>p \<in> set e. snd p = 0 \<or> snd p = 1)"

text \<open>An order that names \<open>d\<close> twice, and the first dictionary the formula receives for \<open>order1\<close>.\<close>

definition order1_dup :: "string list" where
  "order1_dup = [''a'', ''c'', ''b'', ''d'', ''d'']"

definition first_call1 :: env where
  "first_call1 = [(''a'', 0), (''c'', 0), (''b'', 0), (''d'', 0)]"

text \<open>
  Scenario B: the number of names of the order that an assignment sets to 1, the list
  of all assignments over an order, and one assignment with three ones and one with
  two.
\<close>

definition count_ones :: "string list \<Rightarrow> env \<Rightarrow> nat" where
  "count_ones order A = length (filter (\<lambda>v. map_of A v = Some 1) order)"

definition all_assignments :: "string list \<Rightarrow> env list" where
  "all_assignments order = map (zip order) (List.n_lists (length order) [0, 1])"

definition three_ones :: env where
  "three_ones = [(''x1'', 1), (''x2'', 0), (''x3'', 1), (''x4'', 0), (''x5'', 1)]"

definition two_ones :: env where
  "two_ones = [(''x1'', 0), (''x2'', 1), (''x3'', 0), (''x4'', 0), (''x5'', 1)]"

section \<open>Case analysis and induction for the reduced builder\<close>

lemma robdd_build_induct' [case_names step]:
  assumes step: "\<And>f idx e s.
     (memo s (idx, sort e) = None \<Longrightarrow> idx < length (var_order s) \<Longrightarrow>
        P f (idx + 1) (AList.update (var_order s ! idx) 0 e) s) \<Longrightarrow>
     (\<And>lo s1. memo s (idx, sort e) = None \<Longrightarrow> idx < length (var_order s) \<Longrightarrow>
        robdd_build f (idx + 1) (AList.update (var_order s ! idx) 0 e) s = Inr (lo, s1) \<Longrightarrow>
        P f (idx + 1) (AList.update (var_order s ! idx) 1 e) s1) \<Longrightarrow>
     P f idx e s"
  shows "P f idx e s"
proof (induction f idx e s rule: robdd_build.induct)
  case (1 f idx e s)
  show ?case
  proof (rule step)
    assume "memo s (idx, sort e) = None" "idx < length (var_order s)"
    then show "P f (idx + 1) (AList.update (var_order s ! idx) 0 e) s"
      using "1.IH"(1)[OF refl _ _ _ refl] by simp
  next
    fix lo s1
    assume "memo s (idx, sort e) = None" "idx < length (var_order s)"
      "robdd_build f (idx + 1) (AList.update (var_order s ! idx) 0 e) s = Inr (lo, s1)"
    then show "P f (idx + 1) (AList.update (var_order s ! idx) 1 e) s1"
      using "1.IH"(2)[OF refl _ _ _ refl _ refl] by simp
  qed
qed

lemma robdd_build_cases [consumes 1, case_names hit leaf node]:
  assumes "robdd_build f idx e s = Inr (r, s')"
  obtains
    (hit) "memo s (idx, sort e) = Some r" "s' = s"
  | (leaf) val where "memo s (idx, sort e) = None" "idx = length (var_order s)"
      "f (map_of e) = Inr val" "r = (if val = 1 then 1 else 0)"
      "s' = s\<lparr>memo := (memo s)((idx, sort e) \<mapsto> r)\<rparr>"
  | (node) lo s1 hi s2 s3 where "memo s (idx, sort e) = None" "idx < length (var_order s)"
      "robdd_build f (idx + 1) (AList.update (var_order s ! idx) 0 e) s = Inr (lo, s1)"
      "robdd_build f (idx + 1) (AList.update (var_order s ! idx) 1 e) s1 = Inr (hi, s2)"
      "mk (var_order s ! idx) lo hi s2 = (r, s3)"
      "s' = s3\<lparr>memo := (memo s3)((idx, sort e) \<mapsto> r)\<rparr>"
proof (cases "memo s (idx, sort e)")
  case (Some n)
  with assms have "n = r" "s' = s" by (simp_all add: robdd_build.simps[of f idx e s])
  with Some hit show ?thesis by simp
next
  case None
  note eq = assms[unfolded robdd_build.simps[of f idx e s] Let_def]
  show ?thesis
  proof (cases "idx = length (var_order s)")
    case True
    with eq None leaf show ?thesis by (auto split: sum.splits)
  next
    case False
    with eq None have lt: "idx < length (var_order s)" by (auto split: if_splits)
    with eq None False node show ?thesis
      by (auto split: sum.splits prod.splits)
  qed
qed

section \<open>Structural invariants of the node store\<close>

definition wf_nodes :: "Node list \<Rightarrow> bool" where
  "wf_nodes ns \<longleftrightarrow>
     2 \<le> length ns \<and> ns ! 0 = terminal0 \<and> ns ! 1 = terminal1 \<and>
     (\<forall>j. 2 \<le> j \<and> j < length ns \<longrightarrow>
        var (ns ! j) \<noteq> None \<and> low (ns ! j) < j \<and> high (ns ! j) < j)"

definition reduced :: "ROBDD \<Rightarrow> bool" where
  "reduced s \<longleftrightarrow>
     (\<forall>j. 2 \<le> j \<and> j < length (nodes s) \<longrightarrow>
        low (nodes s ! j) \<noteq> high (nodes s ! j) \<and>
        (\<exists>v. var (nodes s ! j) = Some v \<and>
             unique_table s (v, low (nodes s ! j), high (nodes s ! j)) = Some j)) \<and>
     (\<forall>v l h n. unique_table s (v, l, h) = Some n \<longrightarrow>
        2 \<le> n \<and> n < length (nodes s) \<and>
        nodes s ! n = \<lparr>var = Some v, low = l, high = h\<rparr>)"

definition memo_bound :: "ROBDD \<Rightarrow> bool" where
  "memo_bound s \<longleftrightarrow> (\<forall>k n. memo s k = Some n \<longrightarrow> n < length (nodes s))"

definition sinv :: "ROBDD \<Rightarrow> bool" where
  "sinv s \<longleftrightarrow> wf_nodes (nodes s) \<and> reduced s \<and> memo_bound s"

lemma wf_nodes_init: "wf_nodes [terminal0, terminal1]"
  by (auto simp: wf_nodes_def)

lemma sinv_init: "sinv (ROBDD_init order)"
  by (auto simp: sinv_def wf_nodes_def reduced_def memo_bound_def ROBDD_init_def)

lemma wf_nodes_snoc:
  assumes "wf_nodes ns" "lo < length ns" "hi < length ns"
  shows "wf_nodes (ns @ [\<lparr>var = Some v, low = lo, high = hi\<rparr>])"
  using assms unfolding wf_nodes_def
  by (auto simp: nth_append)

lemma mk_cases [consumes 1, case_names rule1 rule2 alloc]:
  assumes "mk v lo hi s = (r, s')"
  obtains
    (rule1) "lo = hi" "r = lo" "s' = s"
  | (rule2) "lo \<noteq> hi" "unique_table s (v, lo, hi) = Some r" "s' = s"
  | (alloc) "lo \<noteq> hi" "unique_table s (v, lo, hi) = None" "r = length (nodes s)"
      "s' = s\<lparr>nodes := nodes s @ [\<lparr>var = Some v, low = lo, high = hi\<rparr>],
              unique_table := (unique_table s)((v, lo, hi) \<mapsto> length (nodes s))\<rparr>"
  using assms unfolding mk_def Let_def
  by (auto split: if_splits option.splits)

lemma reduced_alloc:
  assumes red: "reduced s" and len: "2 \<le> length (nodes s)" and ne: "lo \<noteq> hi" and fresh: "unique_table s (v, lo, hi) = None"
  shows "reduced (s\<lparr>nodes := nodes s @ [\<lparr>var = Some v, low = lo, high = hi\<rparr>],
              unique_table := (unique_table s)((v, lo, hi) \<mapsto> length (nodes s))\<rparr>)"
proof -
  let ?N = "\<lparr>var = Some v, low = lo, high = hi\<rparr>"
  let ?s = "s\<lparr>nodes := nodes s @ [?N],
              unique_table := (unique_table s)((v, lo, hi) \<mapsto> length (nodes s))\<rparr>"
  have a: "low (nodes ?s ! j) \<noteq> high (nodes ?s ! j) \<and>
        (\<exists>w. var (nodes ?s ! j) = Some w \<and>
             unique_table ?s (w, low (nodes ?s ! j), high (nodes ?s ! j)) = Some j)"
    if j: "2 \<le> j" "j < length (nodes ?s)" for j
  proof (cases "j < length (nodes s)")
    case True
    with red j obtain w where w: "low (nodes s ! j) \<noteq> high (nodes s ! j)"
      "var (nodes s ! j) = Some w"
      "unique_table s (w, low (nodes s ! j), high (nodes s ! j)) = Some j"
      unfolding reduced_def by blast
    with fresh have "(w, low (nodes s ! j), high (nodes s ! j)) \<noteq> (v, lo, hi)" by auto
    with w True show ?thesis by (simp add: nth_append)
  next
    case False
    with j have "j = length (nodes s)" by simp
    with ne show ?thesis by (simp add: nth_append)
  qed
  have b: "2 \<le> n \<and> n < length (nodes ?s) \<and> nodes ?s ! n = \<lparr>var = Some w, low = l, high = h\<rparr>"
    if u: "unique_table ?s (w, l, h) = Some n" for w l h n
  proof (cases "(w, l, h) = (v, lo, hi)")
    case True
    with u have n: "n = length (nodes s)" by simp
    with len True show ?thesis by (simp add: nth_append)
  next
    case False
    with u have "unique_table s (w, l, h) = Some n" by (auto split: if_splits)
    with red have "2 \<le> n \<and> n < length (nodes s) \<and> nodes s ! n = \<lparr>var = Some w, low = l, high = h\<rparr>"
      unfolding reduced_def by blast
    then show ?thesis by (simp add: nth_append)
  qed
  show ?thesis unfolding reduced_def using a b by blast
qed

lemma mk_sinv:
  assumes inv: "sinv s" and lo: "lo < length (nodes s)" and hi: "hi < length (nodes s)"
    and mk: "mk v lo hi s = (r, s')"
  shows "sinv s' \<and> var_order s' = var_order s \<and> memo s' = memo s \<and>
         (\<exists>ms. nodes s' = nodes s @ ms) \<and> r < length (nodes s')"
  using mk
proof (cases rule: mk_cases)
  case rule1
  with inv lo show ?thesis by simp
next
  case rule2
  with inv have "r < length (nodes s)" unfolding sinv_def reduced_def by blast
  with rule2 inv show ?thesis by simp
next
  case alloc
  from inv have len: "2 \<le> length (nodes s)" by (simp add: sinv_def wf_nodes_def)
  have "wf_nodes (nodes s')" using inv lo hi alloc(4) by (simp add: sinv_def wf_nodes_snoc)
  moreover have "reduced s'"
    using reduced_alloc[OF _ len alloc(1,2)] inv alloc(4) by (simp add: sinv_def)
  moreover have "memo_bound s'" using inv alloc(4) by (auto simp: sinv_def memo_bound_def less_Suc_eq)
  ultimately show ?thesis using alloc by (simp add: sinv_def)
qed

lemma sinv_memo_upd:
  "sinv s \<Longrightarrow> r < length (nodes s) \<Longrightarrow> sinv (s\<lparr>memo := (memo s)(k \<mapsto> r)\<rparr>)"
  by (auto simp: sinv_def reduced_def memo_bound_def)

lemma robdd_build_sinv:
  "robdd_build f idx e s = Inr (r, s') \<Longrightarrow> sinv s \<Longrightarrow>
   sinv s' \<and> var_order s' = var_order s \<and> (\<exists>ms. nodes s' = nodes s @ ms) \<and>
   r < length (nodes s')"
proof (induction f idx e s arbitrary: r s' rule: robdd_build_induct')
  case (step f idx e s)
  from step.prems(1) show ?case
  proof (cases rule: robdd_build_cases)
    case hit
    with step.prems(2) show ?thesis by (auto simp: sinv_def memo_bound_def)
  next
    case (leaf val)
    from step.prems(2) have "2 \<le> length (nodes s)" by (simp add: sinv_def wf_nodes_def)
    with leaf have r: "r < length (nodes s)" by auto
    from sinv_memo_upd[OF step.prems(2) r] leaf r show ?thesis by simp
  next
    case (node lo s1 hi s2 s3)
    from step.IH(1)[OF node(1,2,3) step.prems(2)] obtain ms1 where
      s1: "sinv s1" "var_order s1 = var_order s" "nodes s1 = nodes s @ ms1" "lo < length (nodes s1)"
      by blast
    from step.IH(2)[OF node(1,2,3,4) s1(1)] obtain ms2 where
      s2: "sinv s2" "var_order s2 = var_order s1" "nodes s2 = nodes s1 @ ms2" "hi < length (nodes s2)"
      by blast
    from s1(4) s2(3) have lo2: "lo < length (nodes s2)" by simp
    from mk_sinv[OF s2(1) lo2 s2(4) node(5)] obtain ms3 where
      s3: "sinv s3" "var_order s3 = var_order s2" "nodes s3 = nodes s2 @ ms3" "r < length (nodes s3)"
      by blast
    from sinv_memo_upd[OF s3(1,4)] node(6) s1 s2 s3 show ?thesis by simp
  qed
qed

section \<open>The unreduced builder: case analysis, well-formedness, node counts\<close>

lemma bdd_build_induct' [case_names step]:
  assumes step: "\<And>f idx e s.
     (idx < length (var_order s) \<Longrightarrow>
        P f (idx + 1) (AList.update (var_order s ! idx) 0 e) s) \<Longrightarrow>
     (\<And>lo s1. idx < length (var_order s) \<Longrightarrow>
        bdd_build f (idx + 1) (AList.update (var_order s ! idx) 0 e) s = Inr (lo, s1) \<Longrightarrow>
        P f (idx + 1) (AList.update (var_order s ! idx) 1 e) s1) \<Longrightarrow>
     P f idx e s"
  shows "P f idx e s"
proof (induction f idx e s rule: bdd_build.induct)
  case (1 f idx e s)
  show ?case
  proof (rule step)
    assume "idx < length (var_order s)"
    then show "P f (idx + 1) (AList.update (var_order s ! idx) 0 e) s"
      using "1.IH"(1)[OF _ _ refl] by simp
  next
    fix lo s1
    assume "idx < length (var_order s)"
      "bdd_build f (idx + 1) (AList.update (var_order s ! idx) 0 e) s = Inr (lo, s1)"
    then show "P f (idx + 1) (AList.update (var_order s ! idx) 1 e) s1"
      using "1.IH"(2)[OF _ _ refl _ refl] by simp
  qed
qed

lemma bdd_build_cases [consumes 1, case_names leaf node]:
  assumes "bdd_build f idx e s = Inr (r, s')"
  obtains
    (leaf) val where "idx = length (var_order s)"
      "f (map_of e) = Inr val" "r = (if val = 1 then 1 else 0)" "s' = s"
  | (node) lo s1 hi s2 where "idx < length (var_order s)"
      "bdd_build f (idx + 1) (AList.update (var_order s ! idx) 0 e) s = Inr (lo, s1)"
      "bdd_build f (idx + 1) (AList.update (var_order s ! idx) 1 e) s1 = Inr (hi, s2)"
      "r = length (nodes s2)"
      "s' = s2\<lparr>nodes := nodes s2 @ [\<lparr>var = Some (var_order s ! idx), low = lo, high = hi\<rparr>]\<rparr>"
proof -
  note eq = assms[unfolded bdd_build.simps[of f idx e s] Let_def new_node_def]
  show ?thesis
  proof (cases "idx = length (var_order s)")
    case True
    with eq leaf show ?thesis by (auto split: sum.splits)
  next
    case False
    with eq have lt: "idx < length (var_order s)" by (auto split: if_splits)
    with eq False node show ?thesis
      by (auto split: sum.splits prod.splits)
  qed
qed

lemma bdd_build_wf:
  "bdd_build f idx e s = Inr (r, s') \<Longrightarrow> wf_nodes (nodes s) \<Longrightarrow>
   wf_nodes (nodes s') \<and> var_order s' = var_order s \<and> (\<exists>ms. nodes s' = nodes s @ ms) \<and>
   r < length (nodes s')"
proof (induction f idx e s arbitrary: r s' rule: bdd_build_induct')
  case (step f idx e s)
  from step.prems(1) show ?case
  proof (cases rule: bdd_build_cases)
    case (leaf val)
    from step.prems(2) have "2 \<le> length (nodes s)" by (simp add: wf_nodes_def)
    with leaf step.prems(2) show ?thesis by auto
  next
    case (node lo s1 hi s2)
    from step.IH(1)[OF node(1,2) step.prems(2)] obtain ms1 where
      s1: "wf_nodes (nodes s1)" "var_order s1 = var_order s" "nodes s1 = nodes s @ ms1"
        "lo < length (nodes s1)"
      by blast
    from step.IH(2)[OF node(1,2,3) s1(1)] obtain ms2 where
      s2: "wf_nodes (nodes s2)" "var_order s2 = var_order s1" "nodes s2 = nodes s1 @ ms2"
        "hi < length (nodes s2)"
      by blast
    from s1(4) s2(3) have lo2: "lo < length (nodes s2)" by simp
    from wf_nodes_snoc[OF s2(1) lo2 s2(4)] node(4,5) s1 s2 show ?thesis by simp
  qed
qed

lemma bdd_build_count:
  "bdd_build f idx e s = Inr (r, s') \<Longrightarrow>
   var_order s' = var_order s \<and>
   length (nodes s') + 1 = length (nodes s) + 2 ^ (length (var_order s) - idx)"
proof (induction f idx e s arbitrary: r s' rule: bdd_build_induct')
  case (step f idx e s)
  from step.prems(1) show ?case
  proof (cases rule: bdd_build_cases)
    case (leaf val)
    then show ?thesis by simp
  next
    case (node lo s1 hi s2)
    note h1 = step.IH(1)[OF node(1,2)] and h2 = step.IH(2)[OF node(1,2,3)]
    from node(1) have "length (var_order s) - idx = Suc (length (var_order s) - (idx + 1))"
      by simp
    with h1 h2 node(5) show ?thesis by simp
  qed
qed

lemma mk_count:
  "mk v lo hi s = (r, s') \<Longrightarrow> length (nodes s') \<le> length (nodes s) + 1"
  by (cases rule: mk_cases) auto

lemma robdd_build_count:
  "robdd_build f idx e s = Inr (r, s') \<Longrightarrow>
   var_order s' = var_order s \<and>
   length (nodes s') + 1 \<le> length (nodes s) + 2 ^ (length (var_order s) - idx)"
proof (induction f idx e s arbitrary: r s' rule: robdd_build_induct')
  case (step f idx e s)
  from step.prems(1) show ?case
  proof (cases rule: robdd_build_cases)
    case hit
    then show ?thesis by simp
  next
    case (leaf val)
    then show ?thesis by simp
  next
    case (node lo s1 hi s2 s3)
    note h1 = step.IH(1)[OF node(1,2,3)] and h2 = step.IH(2)[OF node(1,2,3,4)]
    from node(2) have "length (var_order s) - idx = Suc (length (var_order s) - (idx + 1))"
      by simp
    with h1 h2 mk_count[OF node(5)] mk_var_order[of "var_order s ! idx" lo hi s2] node(5,6)
    show ?thesis by simp
  qed
qed

section \<open>What a node represents\<close>

definition complete_map :: "string list \<Rightarrow> (string \<rightharpoonup> int) \<Rightarrow> bool" where
  "complete_map order A \<longleftrightarrow>
     (\<forall>v. if v \<in> set order then A v = Some 0 \<or> A v = Some 1 else A v = None)"

definition represents ::
  "formula_fn \<Rightarrow> string list \<Rightarrow> Node list \<Rightarrow> nat \<Rightarrow> (string \<rightharpoonup> int) \<Rightarrow> nat \<Rightarrow> bool" where
  "represents f order ns i m n \<longleftrightarrow>
     (\<forall>A. complete_map order A \<longrightarrow>
        (\<exists>val. f (m ++ A |` set (drop i order)) = Inr val \<and>
               traverse (Suc n) ns A n = Some (if val = 1 then 1 else 0)))"

definition memo_sem :: "formula_fn \<Rightarrow> ROBDD \<Rightarrow> bool" where
  "memo_sem f s \<longleftrightarrow>
     (\<forall>i k n. memo s (i, k) = Some n \<longrightarrow>
        represents f (var_order s) (nodes s) i (map_of k) n)"

lemma traverse_mono:
  "traverse k ns A n = Some t \<Longrightarrow> k \<le> k' \<Longrightarrow> traverse k' (ns @ ms) A n = Some t"
proof (induction k ns A n arbitrary: k' rule: traverse.induct)
  case (1 ns A n)
  then show ?case by simp
next
  case (2 k ns A n)
  from "2.prems"(2) obtain j where k': "k' = Suc j" "k \<le> j" by (cases k') auto
  from "2.prems"(1) have n: "n < length ns" by (auto split: if_splits)
  show ?case
  proof (cases "var (ns ! n)")
    case None
    with "2.prems"(1) n k' show ?thesis by (simp add: nth_append)
  next
    case (Some v)
    with "2.prems"(1) n obtain b where b: "A v = Some b" by (auto split: option.splits)
    show ?thesis
    proof (cases "b = 0")
      case True
      with "2.prems"(1) n Some b have "traverse k ns A (low (ns ! n)) = Some t" by simp
      from "2.IH"(1)[OF _ Some b True this k'(2)] n
      have "traverse j (ns @ ms) A (low (ns ! n)) = Some t" by simp
      with n Some b True k' show ?thesis by (simp add: nth_append)
    next
      case False
      with "2.prems"(1) n Some b have b1: "b = 1" by (auto split: if_splits)
      with "2.prems"(1) n Some b have "traverse k ns A (high (ns ! n)) = Some t" by simp
      from "2.IH"(2)[OF _ Some b False b1 this k'(2)] n
      have "traverse j (ns @ ms) A (high (ns ! n)) = Some t" by simp
      with n Some b b1 k' show ?thesis by (simp add: nth_append)
    qed
  qed
qed

lemma traverse_fuel:
  "traverse k ns A n = Some t \<Longrightarrow> k \<le> k' \<Longrightarrow> traverse k' ns A n = Some t"
  using traverse_mono[of k ns A n t k' "[]"] by simp

lemma represents_mono:
  "represents f order ns i m n \<Longrightarrow> represents f order (ns @ ms) i m n"
  unfolding represents_def by (blast intro: traverse_mono)

lemma memo_sem_mono:
  assumes "memo_sem f s" "memo s' = memo s" "var_order s' = var_order s"
    "nodes s' = nodes s @ ms"
  shows "memo_sem f s'"
  using assms unfolding memo_sem_def by (simp add: represents_mono)

lemma memo_sem_upd:
  assumes "memo_sem f s" "represents f (var_order s) (nodes s) i (map_of k) r"
  shows "memo_sem f (s\<lparr>memo := (memo s)((i, k) \<mapsto> r)\<rparr>)"
  using assms unfolding memo_sem_def by auto

lemma distinct_fst_sort: "distinct (map fst (sort xs)) = distinct (map fst xs)"
  by (simp add: distinct_map)

lemma map_of_sort:
  "distinct (map fst e) \<Longrightarrow> map_of (sort e) = map_of (e :: (string \<times> int) list)"
  by (subst map_of_inject_set) (simp_all add: distinct_fst_sort)

lemma traverse_terminal:
  assumes "wf_nodes ns" "n = 0 \<or> n = 1"
  shows "traverse (Suc n) ns A n = Some n"
  using assms by (auto simp: wf_nodes_def terminal0_def terminal1_def)

lemma represents_leaf:
  assumes "wf_nodes ns" "i = length order" "f m = Inr val"
  shows "represents f order ns i m (if val = 1 then 1 else 0)"
  using assms traverse_terminal[OF assms(1), of "if val = 1 then 1 else 0"]
  unfolding represents_def by auto

section \<open>Correctness of the reduced builder\<close>

lemma traverse_node:
  assumes wf: "wf_nodes ns" and r: "2 \<le> r" "r < length ns"
    and N: "ns ! r = \<lparr>var = Some v, low = lo, high = hi\<rparr>"
    and b: "A v = Some b" "b = 0 \<or> b = 1"
    and t0: "traverse (Suc lo) ns A lo = Some t0"
    and t1: "traverse (Suc hi) ns A hi = Some t1"
  shows "traverse (Suc r) ns A r = Some (if b = 0 then t0 else t1)"
proof -
  from wf r N have lt: "lo < r" "hi < r" unfolding wf_nodes_def by force+
  from traverse_fuel[OF t0, of r] lt have l: "traverse r ns A lo = Some t0" by simp
  from traverse_fuel[OF t1, of r] lt have h: "traverse r ns A hi = Some t1" by simp
  from r N b l h show ?thesis by auto
qed

lemma traverse_mk:
  assumes inv: "sinv s" and lo: "lo < length (nodes s)" and hi: "hi < length (nodes s)"
    and mk: "mk v lo hi s = (r, s')"
    and b: "A v = Some b" "b = 0 \<or> b = 1"
    and t0: "traverse (Suc lo) (nodes s) A lo = Some t0"
    and t1: "traverse (Suc hi) (nodes s) A hi = Some t1"
  shows "traverse (Suc r) (nodes s') A r = Some (if b = 0 then t0 else t1)"
  using mk
proof (cases rule: mk_cases)
  case rule1
  with t0 t1 show ?thesis by auto
next
  case rule2
  from inv have wf: "wf_nodes (nodes s)" and red: "reduced s" by (simp_all add: sinv_def)
  from red rule2(2) have r: "2 \<le> r" "r < length (nodes s)"
    "nodes s ! r = \<lparr>var = Some v, low = lo, high = hi\<rparr>"
    unfolding reduced_def by blast+
  from traverse_node[OF wf r b t0 t1] rule2(3) show ?thesis by simp
next
  case alloc
  let ?ns = "nodes s @ [\<lparr>var = Some v, low = lo, high = hi\<rparr>]"
  from inv have wf: "wf_nodes (nodes s)" by (simp add: sinv_def)
  then have len: "2 \<le> length (nodes s)" by (simp add: wf_nodes_def)
  have wf': "wf_nodes ?ns" by (rule wf_nodes_snoc[OF wf lo hi])
  have r: "2 \<le> r" "r < length ?ns" "?ns ! r = \<lparr>var = Some v, low = lo, high = hi\<rparr>"
    using alloc(3) len by simp_all
  have t0': "traverse (Suc lo) ?ns A lo = Some t0" by (rule traverse_mono[OF t0 le_refl])
  have t1': "traverse (Suc hi) ?ns A hi = Some t1" by (rule traverse_mono[OF t1 le_refl])
  from traverse_node[OF wf' r b t0' t1'] alloc(4) show ?thesis by simp
qed

lemma merge_bind:
  assumes "A v = Some b"
  shows "m ++ A |` insert v D = m(v \<mapsto> b) ++ A |` D"
  using assms by (auto simp: map_add_def restrict_map_def fun_eq_iff split: option.splits)

lemma set_drop_nth: "i < length xs \<Longrightarrow> set (drop i xs) = insert (xs ! i) (set (drop (Suc i) xs))"
  by (simp add: Cons_nth_drop_Suc[symmetric])

lemma mk_represents:
  assumes inv: "sinv s" and lo: "lo < length (nodes s)" and hi: "hi < length (nodes s)"
    and mk: "mk (order ! i) lo hi s = (r, s')"
    and i: "i < length order"
    and r0: "represents f order (nodes s) (Suc i) (m(order ! i \<mapsto> 0)) lo"
    and r1: "represents f order (nodes s) (Suc i) (m(order ! i \<mapsto> 1)) hi"
  shows "represents f order (nodes s') i m r"
  unfolding represents_def
proof (intro allI impI)
  fix A assume A: "complete_map order A"
  let ?v = "order ! i"
  from i have "?v \<in> set order" by simp
  with A have b: "A ?v = Some 0 \<or> A ?v = Some 1" unfolding complete_map_def by metis
  from r0 A obtain v0 where v0: "f (m(?v \<mapsto> 0) ++ A |` set (drop (Suc i) order)) = Inr v0"
    "traverse (Suc lo) (nodes s) A lo = Some (if v0 = 1 then 1 else 0)"
    unfolding represents_def by blast
  from r1 A obtain v1 where v1: "f (m(?v \<mapsto> 1) ++ A |` set (drop (Suc i) order)) = Inr v1"
    "traverse (Suc hi) (nodes s) A hi = Some (if v1 = 1 then 1 else 0)"
    unfolding represents_def by blast
  from b show "\<exists>val. f (m ++ A |` set (drop i order)) = Inr val \<and>
               traverse (Suc r) (nodes s') A r = Some (if val = 1 then 1 else 0)"
  proof
    assume a: "A ?v = Some 0"
    from traverse_mk[OF inv lo hi mk a _ v0(2) v1(2)]
    have "traverse (Suc r) (nodes s') A r = Some (if v0 = 1 then 1 else 0)" by simp
    with v0(1) merge_bind[of A ?v _ m "set (drop (Suc i) order)", OF a] set_drop_nth[OF i]
    show ?thesis by auto
  next
    assume a: "A ?v = Some 1"
    from traverse_mk[OF inv lo hi mk a _ v0(2) v1(2)]
    have "traverse (Suc r) (nodes s') A r = Some (if v1 = 1 then 1 else 0)" by simp
    with v1(1) merge_bind[of A ?v _ m "set (drop (Suc i) order)", OF a] set_drop_nth[OF i]
    show ?thesis by auto
  qed
qed

lemma robdd_build_sem:
  "robdd_build f idx e s = Inr (r, s') \<Longrightarrow> sinv s \<Longrightarrow> memo_sem f s \<Longrightarrow>
   distinct (map fst e) \<Longrightarrow>
   memo_sem f s' \<and> represents f (var_order s) (nodes s') idx (map_of e) r"
proof (induction f idx e s arbitrary: r s' rule: robdd_build_induct')
  case (step f idx e s)
  note inv = step.prems(2) and ms = step.prems(3) and dist = step.prems(4)
  let ?order = "var_order s"
  from step.prems(1) show ?case
  proof (cases rule: robdd_build_cases)
    case hit
    with ms have "represents f ?order (nodes s) idx (map_of (sort e)) r"
      unfolding memo_sem_def by blast
    with hit ms dist show ?thesis by (simp add: map_of_sort)
  next
    case (leaf val)
    from inv have wf: "wf_nodes (nodes s)" by (simp add: sinv_def)
    from represents_leaf[of "nodes s" idx ?order f "map_of e" val, OF wf leaf(2) leaf(3)] leaf(4)
    have rep: "represents f ?order (nodes s) idx (map_of e) r" by simp
    then have "represents f ?order (nodes s) idx (map_of (sort e)) r"
      using dist by (simp add: map_of_sort)
    from memo_sem_upd[OF ms this] rep leaf(5) show ?thesis by simp
  next
    case (node lo s1 hi s2 s3)
    let ?v = "?order ! idx"
    have d0: "distinct (map fst (AList.update ?v 0 e))"
      and d1: "distinct (map fst (AList.update ?v 1 e))"
      using dist by (simp_all add: distinct_update)
    from robdd_build_sinv[OF node(3) inv] obtain ms1 where
      s1: "sinv s1" "var_order s1 = ?order" "nodes s1 = nodes s @ ms1" "lo < length (nodes s1)"
      by blast
    from robdd_build_sinv[OF node(4) s1(1)] obtain ms2 where
      s2: "sinv s2" "var_order s2 = var_order s1" "nodes s2 = nodes s1 @ ms2"
        "hi < length (nodes s2)"
      by blast
    from mk_sinv[OF s2(1) _ s2(4) node(5)] s1(4) s2(3) obtain ms3 where
      s3: "sinv s3" "var_order s3 = var_order s2" "memo s3 = memo s2"
        "nodes s3 = nodes s2 @ ms3" "r < length (nodes s3)"
      by auto
    from step.IH(1)[OF node(1,2,3) inv ms d0]
    have m1: "memo_sem f s1" and
      r0: "represents f ?order (nodes s1) (idx + 1) (map_of (AList.update ?v 0 e)) lo"
      by simp_all
    from step.IH(2)[OF node(1,2,3,4) s1(1) m1 d1] s1(2)
    have m2: "memo_sem f s2" and
      r1: "represents f ?order (nodes s2) (idx + 1) (map_of (AList.update ?v 1 e)) hi"
      by simp_all
    from represents_mono[OF r0, of ms2] s2(3)
    have r0': "represents f ?order (nodes s2) (Suc idx) ((map_of e)(?v \<mapsto> 0)) lo"
      by (simp add: update_conv')
    from r1 have r1': "represents f ?order (nodes s2) (Suc idx) ((map_of e)(?v \<mapsto> 1)) hi"
      by (simp add: update_conv')
    from s1(4) s2(3) have lo2: "lo < length (nodes s2)" by simp
    from mk_represents[OF s2(1) lo2 s2(4) node(5) node(2) r0' r1']
    have rep: "represents f ?order (nodes s3) idx (map_of e) r" .
    have m3: "memo_sem f s3"
      by (rule memo_sem_mono[OF m2 s3(3,2,4)])
    from rep have "represents f (var_order s3) (nodes s3) idx (map_of (sort e)) r"
      using dist s1(2) s2(2) s3(2) by (simp add: map_of_sort)
    from memo_sem_upd[OF m3 this] rep node(6) show ?thesis by simp
  qed
qed

lemma wf_nodes_acyclic:
  assumes "wf_nodes ns"
  shows "acyclic (edges ns)"
proof -
  have "edges ns \<subseteq> {(j, c). c < j}"
    using assms unfolding edges_def wf_nodes_def by auto
  moreover have "acyclic {(j, c). c < (j::nat)}"
  proof -
    have "{(j, c). c < (j::nat)} = (less_than)\<inverse>" by auto
    then show ?thesis by (simp add: wf_acyclic)
  qed
  ultimately show ?thesis by (rule acyclic_subset[rotated])
qed

section \<open>Runs of the two builders\<close>

termination robdd_trace
proof (relation "measure (\<lambda>(f, idx, e, s). length (var_order s) - idx)", goal_cases)
  case 1
  show ?case by simp
next
  case (2 f idx e s k v)
  then show ?case by auto
next
  case (3 f idx e s k v t0 b lo s1)
  then show ?case
    using robdd_build_count[of f "idx + 1" "AList.update v 0 e" s lo s1] by auto
qed

termination bdd_trace
proof (relation "measure (\<lambda>(f, idx, e, s). length (var_order s) - idx)", goal_cases)
  case 1
  show ?case by simp
next
  case (2 f idx e s v)
  then show ?case by auto
next
  case (3 f idx e s v t0 b lo s1)
  then show ?case
    using bdd_build_count[of f "idx + 1" "AList.update v 0 e" s lo s1] by auto
qed

declare robdd_trace.simps [simp del]

declare bdd_trace.simps [simp del]

lemma robdd_run_cases [case_names hit index leaf_fail leaf fail0 fail1 node]:
  obtains
    (hit) n where "memo s (idx, sort e) = Some n"
      "robdd_trace f idx e s = []" "robdd_build f idx e s = Inr (n, s)"
  | (index) "memo s (idx, sort e) = None" "length (var_order s) < idx"
      "robdd_trace f idx e s = []" "robdd_build f idx e s = Inl IndexError"
  | (leaf_fail) x where "memo s (idx, sort e) = None" "idx = length (var_order s)"
      "f (map_of e) = Inl x"
      "robdd_trace f idx e s = [Oracle e]" "robdd_build f idx e s = Inl x"
  | (leaf) val where "memo s (idx, sort e) = None" "idx = length (var_order s)"
      "f (map_of e) = Inr val"
      "robdd_trace f idx e s = [Oracle e, Computed (idx, sort e)]"
      "robdd_build f idx e s =
         Inr (if val = 1 then 1 else 0,
              s\<lparr>memo := (memo s)((idx, sort e) \<mapsto> if val = 1 then 1 else 0)\<rparr>)"
  | (fail0) x where "memo s (idx, sort e) = None" "idx < length (var_order s)"
      "robdd_build f (idx + 1) (AList.update (var_order s ! idx) 0 e) s = Inl x"
      "robdd_trace f idx e s = robdd_trace f (idx + 1) (AList.update (var_order s ! idx) 0 e) s"
      "robdd_build f idx e s = Inl x"
  | (fail1) lo s1 x where "memo s (idx, sort e) = None" "idx < length (var_order s)"
      "robdd_build f (idx + 1) (AList.update (var_order s ! idx) 0 e) s = Inr (lo, s1)"
      "robdd_build f (idx + 1) (AList.update (var_order s ! idx) 1 e) s1 = Inl x"
      "robdd_trace f idx e s =
         robdd_trace f (idx + 1) (AList.update (var_order s ! idx) 0 e) s @
         robdd_trace f (idx + 1) (AList.update (var_order s ! idx) 1 e) s1"
      "robdd_build f idx e s = Inl x"
  | (node) lo s1 hi s2 r s3 where "memo s (idx, sort e) = None" "idx < length (var_order s)"
      "robdd_build f (idx + 1) (AList.update (var_order s ! idx) 0 e) s = Inr (lo, s1)"
      "robdd_build f (idx + 1) (AList.update (var_order s ! idx) 1 e) s1 = Inr (hi, s2)"
      "mk (var_order s ! idx) lo hi s2 = (r, s3)"
      "robdd_trace f idx e s =
         robdd_trace f (idx + 1) (AList.update (var_order s ! idx) 0 e) s @
         robdd_trace f (idx + 1) (AList.update (var_order s ! idx) 1 e) s1 @
         [Computed (idx, sort e)]"
      "robdd_build f idx e s = Inr (r, s3\<lparr>memo := (memo s3)((idx, sort e) \<mapsto> r)\<rparr>)"
proof (cases "memo s (idx, sort e)")
  case (Some n)
  have "robdd_trace f idx e s = []" "robdd_build f idx e s = Inr (n, s)"
    unfolding robdd_trace.simps[of f idx e s] robdd_build.simps[of f idx e s]
    using Some by simp_all
  with Some show ?thesis by (rule hit[of n])
next
  case None
  note unf = robdd_trace.simps[of f idx e s] robdd_build.simps[of f idx e s]
  consider "idx = length (var_order s)" | "length (var_order s) < idx" | "idx < length (var_order s)"
    by linarith
  then show ?thesis
  proof cases
    case 1
    show ?thesis
    proof (cases "f (map_of e)")
      case (Inl x)
      have "robdd_trace f idx e s = [Oracle e]" "robdd_build f idx e s = Inl x"
        unfolding unf using None 1 Inl by simp_all
      with None 1 Inl show ?thesis by (rule leaf_fail[of x])
    next
      case (Inr val)
      have "robdd_trace f idx e s = [Oracle e, Computed (idx, sort e)]"
        "robdd_build f idx e s =
         Inr (if val = 1 then 1 else 0,
              s\<lparr>memo := (memo s)((idx, sort e) \<mapsto> if val = 1 then 1 else 0)\<rparr>)"
        unfolding unf using None 1 Inr by (simp_all add: Let_def)
      with None 1 Inr show ?thesis by (rule leaf[of val])
    qed
  next
    case 2
    have "robdd_trace f idx e s = []" "robdd_build f idx e s = Inl IndexError"
      unfolding unf using None 2 by simp_all
    with None 2 show ?thesis by (rule index)
  next
    case 3
    let ?v = "var_order s ! idx"
    show ?thesis
    proof (cases "robdd_build f (idx + 1) (AList.update ?v 0 e) s")
      case (Inl x)
      have "robdd_trace f idx e s = robdd_trace f (idx + 1) (AList.update ?v 0 e) s"
        "robdd_build f idx e s = Inl x"
        unfolding unf using None 3 Inl by (simp_all add: Let_def)
      with None 3 Inl show ?thesis by (rule fail0[of x])
    next
      case (Inr p)
      obtain lo s1 where p: "p = (lo, s1)" by (cases p)
      show ?thesis
      proof (cases "robdd_build f (idx + 1) (AList.update ?v 1 e) s1")
        case (Inl x)
        have "robdd_trace f idx e s =
           robdd_trace f (idx + 1) (AList.update ?v 0 e) s @
           robdd_trace f (idx + 1) (AList.update ?v 1 e) s1"
          "robdd_build f idx e s = Inl x"
          unfolding unf using None 3 Inr p Inl by (simp_all add: Let_def)
        with None 3 Inr[unfolded p] Inl show ?thesis by (rule fail1[of lo s1 x])
      next
        case b1: (Inr q)
        obtain hi s2 where q: "q = (hi, s2)" by (cases q)
        obtain r s3 where m: "mk ?v lo hi s2 = (r, s3)" by (cases "mk ?v lo hi s2")
        have "robdd_trace f idx e s =
           robdd_trace f (idx + 1) (AList.update ?v 0 e) s @
           robdd_trace f (idx + 1) (AList.update ?v 1 e) s1 @ [Computed (idx, sort e)]"
          "robdd_build f idx e s = Inr (r, s3\<lparr>memo := (memo s3)((idx, sort e) \<mapsto> r)\<rparr>)"
          unfolding unf using None 3 Inr p b1 q m by (simp_all add: Let_def)
        with None 3 Inr[unfolded p] b1[unfolded q] m show ?thesis
          by (rule node[of lo s1 hi s2 r s3])
      qed
    qed
  qed
qed

lemma set_update_subset: "set (AList.update k v al) \<subseteq> insert (k, v) (set al)"
  by (induction al) auto

lemma env_ok_init: "env_ok order 0 []"
  by (simp add: env_ok_def)

lemma env_ok_update:
  assumes ok: "env_ok order idx e" and i: "idx < length order" and b: "b = 0 \<or> b = 1"
  shows "env_ok order (Suc idx) (AList.update (order ! idx) b e)"
proof -
  let ?v = "order ! idx"
  let ?e = "AList.update ?v b e"
  from i have v: "?v \<in> set order" by simp
  have d: "distinct (map fst ?e)" using ok by (simp add: env_ok_def distinct_update)
  have k: "fst ` set ?e = insert ?v (fst ` set e)" by (simp add: dom_update)
  have s1: "fst ` set ?e \<subseteq> set order" using ok v k by (simp add: env_ok_def)
  have "set (drop idx order) = insert ?v (set (drop (Suc idx) order))"
    by (rule set_drop_nth[OF i])
  with ok k have s2: "set order \<subseteq> fst ` set ?e \<union> set (drop (Suc idx) order)"
    unfolding env_ok_def by auto
  have s3: "\<forall>p \<in> set ?e. snd p = 0 \<or> snd p = 1"
    using ok b set_update_subset[of ?v b e] unfolding env_ok_def by auto
  from d s1 s2 s3 show ?thesis unfolding env_ok_def by blast
qed

lemma env_ok_leaf: "env_ok order (length order) e \<Longrightarrow> complete order e"
  unfolding env_ok_def complete_def by auto

lemma oracle_calls_append [simp]: "oracle_calls (a @ b) = oracle_calls a @ oracle_calls b"
  by (induction a rule: oracle_calls.induct) simp_all

lemma computed_keys_append [simp]: "computed_keys (a @ b) = computed_keys a @ computed_keys b"
  by (induction a rule: computed_keys.induct) simp_all

lemma robdd_trace_complete:
  "env_ok (var_order s) idx e \<Longrightarrow> e' \<in> set (oracle_calls (robdd_trace f idx e s)) \<Longrightarrow>
   complete (var_order s) e'"
proof (induction f idx e s rule: robdd_build_induct')
  case (step f idx e s)
  let ?v = "var_order s ! idx"
  show ?case
  proof (cases rule: robdd_run_cases[of s idx e f])
    case (hit n)
    with step.prems show ?thesis by simp
  next
    case index
    with step.prems show ?thesis by simp
  next
    case (leaf_fail x)
    with step.prems env_ok_leaf[of "var_order s" e] show ?thesis by simp
  next
    case (leaf val)
    with step.prems env_ok_leaf[of "var_order s" e] show ?thesis by simp
  next
    case (fail0 x)
    from env_ok_update[OF step.prems(1) fail0(2), of 0]
    have ok0: "env_ok (var_order s) (idx + 1) (AList.update ?v 0 e)" by simp
    from step.IH(1)[OF fail0(1,2) ok0] step.prems(2) fail0(4) show ?thesis by simp
  next
    case (fail1 lo s1 x)
    from env_ok_update[OF step.prems(1) fail1(2), of 0]
    have ok0: "env_ok (var_order s) (idx + 1) (AList.update ?v 0 e)" by simp
    from env_ok_update[OF step.prems(1) fail1(2), of 1]
    have ok1: "env_ok (var_order s) (idx + 1) (AList.update ?v 1 e)" by simp
    from robdd_build_count[OF fail1(3)] have vo: "var_order s1 = var_order s" by simp
    from step.IH(1)[OF fail1(1,2) ok0] step.IH(2)[OF fail1(1,2,3)] ok1 vo
      step.prems(2) fail1(5)
    show ?thesis by auto
  next
    case (node lo s1 hi s2 r s3)
    from env_ok_update[OF step.prems(1) node(2), of 0]
    have ok0: "env_ok (var_order s) (idx + 1) (AList.update ?v 0 e)" by simp
    from env_ok_update[OF step.prems(1) node(2), of 1]
    have ok1: "env_ok (var_order s) (idx + 1) (AList.update ?v 1 e)" by simp
    from robdd_build_count[OF node(3)] have vo: "var_order s1 = var_order s" by simp
    from step.IH(1)[OF node(1,2) ok0] step.IH(2)[OF node(1,2,3)] ok1 vo
      step.prems(2) node(6)
    show ?thesis by auto
  qed
qed

lemma robdd_build_succeeds:
  "(\<And>e'. e' \<in> set (oracle_calls (robdd_trace f idx e s)) \<Longrightarrow> \<exists>val. f (map_of e') = Inr val) \<Longrightarrow>
   idx \<le> length (var_order s) \<Longrightarrow> \<exists>r s'. robdd_build f idx e s = Inr (r, s')"
proof (induction f idx e s rule: robdd_build_induct')
  case (step f idx e s)
  show ?case
  proof (cases rule: robdd_run_cases[of s idx e f])
    case (hit n)
    then show ?thesis by simp
  next
    case index
    with step.prems(2) show ?thesis by simp
  next
    case (leaf_fail x)
    with step.prems(1)[of e] show ?thesis by simp
  next
    case (leaf val)
    then show ?thesis by simp
  next
    case (fail0 x)
    have "\<exists>r s'. robdd_build f (idx + 1) (AList.update (var_order s ! idx) 0 e) s = Inr (r, s')"
      using step.IH(1)[OF fail0(1,2)] step.prems(1) fail0(2,4) by simp
    with fail0(3) show ?thesis by simp
  next
    case (fail1 lo s1 x)
    from robdd_build_count[OF fail1(3)] have vo: "var_order s1 = var_order s" by simp
    have "\<exists>r s'. robdd_build f (idx + 1) (AList.update (var_order s ! idx) 1 e) s1 = Inr (r, s')"
      using step.IH(2)[OF fail1(1,2,3)] step.prems(1) fail1(2,5) vo by simp
    with fail1(4) show ?thesis by simp
  next
    case (node lo s1 hi s2 r s3)
    then show ?thesis by simp
  qed
qed

lemma robdd_oracle_count:
  "length (oracle_calls (robdd_trace f idx e s)) \<le> 2 ^ (length (var_order s) - idx)"
proof (induction f idx e s rule: robdd_build_induct')
  case (step f idx e s)
  have pw: "(2::nat) ^ (length (var_order s) - idx) =
            2 * 2 ^ (length (var_order s) - (idx + 1))" if "idx < length (var_order s)"
  proof -
    from that have "length (var_order s) - idx = Suc (length (var_order s) - (idx + 1))"
      by simp
    then show ?thesis by simp
  qed
  have pos: "(0::nat) < 2 ^ (length (var_order s) - (idx + 1))" by simp
  show ?case
  proof (cases rule: robdd_run_cases[of s idx e f])
    case (hit n)
    then show ?thesis by simp
  next
    case index
    then show ?thesis by simp
  next
    case (leaf_fail x)
    then show ?thesis by simp
  next
    case (leaf val)
    then show ?thesis by simp
  next
    case (fail0 x)
    from step.IH(1)[OF fail0(1,2)] fail0(4) pw[OF fail0(2)] show ?thesis by simp
  next
    case (fail1 lo s1 x)
    from robdd_build_count[OF fail1(3)] have vo: "var_order s1 = var_order s" by simp
    from step.IH(1)[OF fail1(1,2)] step.IH(2)[OF fail1(1,2,3)] vo fail1(5) pw[OF fail1(2)]
    show ?thesis by simp
  next
    case (node lo s1 hi s2 r s3)
    from robdd_build_count[OF node(3)] have vo: "var_order s1 = var_order s" by simp
    from step.IH(1)[OF node(1,2)] step.IH(2)[OF node(1,2,3)] vo node(6) pw[OF node(2)]
    show ?thesis by simp
  qed
qed

lemma mk_memo: "mk v lo hi s = (r, s') \<Longrightarrow> memo s' = memo s"
  by (cases rule: mk_cases) auto

lemma robdd_keys:
  "distinct (computed_keys (robdd_trace f idx e s)) \<and>
   (\<forall>k \<in> set (computed_keys (robdd_trace f idx e s)). idx \<le> fst k \<and> memo s k = None) \<and>
   (\<forall>r s'. robdd_build f idx e s = Inr (r, s') \<longrightarrow>
      dom (memo s') = dom (memo s) \<union> set (computed_keys (robdd_trace f idx e s)))"
proof (induction f idx e s rule: robdd_build_induct')
  case (step f idx e s)
  let ?v = "var_order s ! idx"
  let ?t0 = "robdd_trace f (idx + 1) (AList.update ?v 0 e) s"
  show ?case
  proof (cases rule: robdd_run_cases[of s idx e f])
    case (hit n)
    then show ?thesis by simp
  next
    case index
    then show ?thesis by simp
  next
    case (leaf_fail x)
    then show ?thesis by simp
  next
    case (leaf val)
    then show ?thesis by auto
  next
    case (fail0 x)
    from step.IH(1)[OF fail0(1,2)] fail0(4,5) show ?thesis by auto
  next
    case (fail1 lo s1 x)
    let ?t1 = "robdd_trace f (idx + 1) (AList.update ?v 1 e) s1"
    note h0 = step.IH(1)[OF fail1(1,2)] and h1 = step.IH(2)[OF fail1(1,2,3)]
    from h0 fail1(3) have d1: "dom (memo s1) = dom (memo s) \<union> set (computed_keys ?t0)"
      by blast
    have out1: "k \<notin> dom (memo s1)" if "k \<in> set (computed_keys ?t1)" for k
      using h1 that by (simp add: domIff)
    have disj: "set (computed_keys ?t0) \<inter> set (computed_keys ?t1) = {}"
      using out1 d1 by blast
    have none: "\<forall>k \<in> set (computed_keys ?t1). memo s k = None"
      using out1 d1 by (metis UnI1 domIff)
    from h0 h1 disj none fail1(5,6) show ?thesis by auto
  next
    case (node lo s1 hi s2 r s3)
    let ?t1 = "robdd_trace f (idx + 1) (AList.update ?v 1 e) s1"
    note h0 = step.IH(1)[OF node(1,2)] and h1 = step.IH(2)[OF node(1,2,3)]
    from h0 node(3) have d1: "dom (memo s1) = dom (memo s) \<union> set (computed_keys ?t0)"
      by blast
    from h1 node(4) have d2: "dom (memo s2) = dom (memo s1) \<union> set (computed_keys ?t1)"
      by blast
    have out1: "k \<notin> dom (memo s1)" if "k \<in> set (computed_keys ?t1)" for k
      using h1 that by (simp add: domIff)
    have disj: "set (computed_keys ?t0) \<inter> set (computed_keys ?t1) = {}"
      using out1 d1 by blast
    have none: "\<forall>k \<in> set (computed_keys ?t1). memo s k = None"
      using out1 d1 by (metis UnI1 domIff)
    have fresh: "(idx, sort e) \<notin> set (computed_keys ?t0)" "(idx, sort e) \<notin> set (computed_keys ?t1)"
      using h0 h1 by auto
    have a: "distinct (computed_keys (robdd_trace f idx e s))"
      using h0 h1 disj fresh node(6) by simp
    have b: "\<forall>k \<in> set (computed_keys (robdd_trace f idx e s)). idx \<le> fst k \<and> memo s k = None"
      using h0 h1 none node(1,6) by auto
    have c: "dom (memo (s3\<lparr>memo := (memo s3)((idx, sort e) \<mapsto> r)\<rparr>)) =
             dom (memo s) \<union> set (computed_keys (robdd_trace f idx e s))"
      using d1 d2 mk_memo[OF node(5)] node(6) by auto
    from a b c node(7) show ?thesis by simp
  qed
qed

lemma bdd_run_cases [case_names index leaf_fail leaf fail0 fail1 node]:
  obtains
    (index) "length (var_order s) < idx"
      "bdd_trace f idx e s = []" "bdd_build f idx e s = Inl IndexError"
  | (leaf_fail) x where "idx = length (var_order s)" "f (map_of e) = Inl x"
      "bdd_trace f idx e s = [Oracle e]" "bdd_build f idx e s = Inl x"
  | (leaf) val where "idx = length (var_order s)" "f (map_of e) = Inr val"
      "bdd_trace f idx e s = [Oracle e]"
      "bdd_build f idx e s = Inr (if val = 1 then 1 else 0, s)"
  | (fail0) x where "idx < length (var_order s)"
      "bdd_build f (idx + 1) (AList.update (var_order s ! idx) 0 e) s = Inl x"
      "bdd_trace f idx e s = bdd_trace f (idx + 1) (AList.update (var_order s ! idx) 0 e) s"
      "bdd_build f idx e s = Inl x"
  | (fail1) lo s1 x where "idx < length (var_order s)"
      "bdd_build f (idx + 1) (AList.update (var_order s ! idx) 0 e) s = Inr (lo, s1)"
      "bdd_build f (idx + 1) (AList.update (var_order s ! idx) 1 e) s1 = Inl x"
      "bdd_trace f idx e s =
         bdd_trace f (idx + 1) (AList.update (var_order s ! idx) 0 e) s @
         bdd_trace f (idx + 1) (AList.update (var_order s ! idx) 1 e) s1"
      "bdd_build f idx e s = Inl x"
  | (node) lo s1 hi s2 where "idx < length (var_order s)"
      "bdd_build f (idx + 1) (AList.update (var_order s ! idx) 0 e) s = Inr (lo, s1)"
      "bdd_build f (idx + 1) (AList.update (var_order s ! idx) 1 e) s1 = Inr (hi, s2)"
      "bdd_trace f idx e s =
         bdd_trace f (idx + 1) (AList.update (var_order s ! idx) 0 e) s @
         bdd_trace f (idx + 1) (AList.update (var_order s ! idx) 1 e) s1"
      "bdd_build f idx e s = Inr (new_node (var_order s ! idx) lo hi s2)"
proof -
  note unf = bdd_trace.simps[of f idx e s] bdd_build.simps[of f idx e s]
  consider "idx = length (var_order s)" | "length (var_order s) < idx" | "idx < length (var_order s)"
    by linarith
  then show ?thesis
  proof cases
    case 1
    show ?thesis
    proof (cases "f (map_of e)")
      case (Inl x)
      have "bdd_trace f idx e s = [Oracle e]" "bdd_build f idx e s = Inl x"
        unfolding unf using 1 Inl by simp_all
      with 1 Inl show ?thesis by (rule leaf_fail[of x])
    next
      case (Inr val)
      have "bdd_trace f idx e s = [Oracle e]"
        "bdd_build f idx e s = Inr (if val = 1 then 1 else 0, s)"
        unfolding unf using 1 Inr by simp_all
      with 1 Inr show ?thesis by (rule leaf[of val])
    qed
  next
    case 2
    have "bdd_trace f idx e s = []" "bdd_build f idx e s = Inl IndexError"
      unfolding unf using 2 by simp_all
    with 2 show ?thesis by (rule index)
  next
    case 3
    let ?v = "var_order s ! idx"
    show ?thesis
    proof (cases "bdd_build f (idx + 1) (AList.update ?v 0 e) s")
      case (Inl x)
      have "bdd_trace f idx e s = bdd_trace f (idx + 1) (AList.update ?v 0 e) s"
        "bdd_build f idx e s = Inl x"
        unfolding unf using 3 Inl by (simp_all add: Let_def)
      with 3 Inl show ?thesis by (rule fail0[of x])
    next
      case (Inr p)
      obtain lo s1 where p: "p = (lo, s1)" by (cases p)
      have t: "bdd_trace f idx e s =
           bdd_trace f (idx + 1) (AList.update ?v 0 e) s @
           bdd_trace f (idx + 1) (AList.update ?v 1 e) s1"
        unfolding unf using 3 Inr p by (simp add: Let_def)
      show ?thesis
      proof (cases "bdd_build f (idx + 1) (AList.update ?v 1 e) s1")
        case (Inl x)
        have "bdd_build f idx e s = Inl x"
          unfolding unf using 3 Inr p Inl by (simp add: Let_def)
        with 3 Inr[unfolded p] Inl t show ?thesis by (rule fail1[of lo s1 x])
      next
        case b1: (Inr q)
        obtain hi s2 where q: "q = (hi, s2)" by (cases q)
        have "bdd_build f idx e s = Inr (new_node ?v lo hi s2)"
          unfolding unf using 3 Inr p b1 q by (simp add: Let_def)
        with 3 Inr[unfolded p] b1[unfolded q] t show ?thesis
          by (rule node[of lo s1 hi s2])
      qed
    qed
  qed
qed

lemma bdd_trace_complete:
  "env_ok (var_order s) idx e \<Longrightarrow> e' \<in> set (oracle_calls (bdd_trace f idx e s)) \<Longrightarrow>
   complete (var_order s) e'"
proof (induction f idx e s rule: bdd_build_induct')
  case (step f idx e s)
  let ?v = "var_order s ! idx"
  show ?case
  proof (cases rule: bdd_run_cases[of s idx f e])
    case index
    with step.prems show ?thesis by simp
  next
    case (leaf_fail x)
    with step.prems env_ok_leaf[of "var_order s" e] show ?thesis by simp
  next
    case (leaf val)
    with step.prems env_ok_leaf[of "var_order s" e] show ?thesis by simp
  next
    case (fail0 x)
    from env_ok_update[OF step.prems(1) fail0(1), of 0]
    have ok0: "env_ok (var_order s) (idx + 1) (AList.update ?v 0 e)" by simp
    from step.IH(1)[OF fail0(1) ok0] step.prems(2) fail0(3) show ?thesis by simp
  next
    case (fail1 lo s1 x)
    from env_ok_update[OF step.prems(1) fail1(1), of 0]
    have ok0: "env_ok (var_order s) (idx + 1) (AList.update ?v 0 e)" by simp
    from env_ok_update[OF step.prems(1) fail1(1), of 1]
    have ok1: "env_ok (var_order s) (idx + 1) (AList.update ?v 1 e)" by simp
    from bdd_build_count[OF fail1(2)] have vo: "var_order s1 = var_order s" by simp
    from step.IH(1)[OF fail1(1) ok0] step.IH(2)[OF fail1(1,2)] ok1 vo
      step.prems(2) fail1(4)
    show ?thesis by auto
  next
    case (node lo s1 hi s2)
    from env_ok_update[OF step.prems(1) node(1), of 0]
    have ok0: "env_ok (var_order s) (idx + 1) (AList.update ?v 0 e)" by simp
    from env_ok_update[OF step.prems(1) node(1), of 1]
    have ok1: "env_ok (var_order s) (idx + 1) (AList.update ?v 1 e)" by simp
    from bdd_build_count[OF node(2)] have vo: "var_order s1 = var_order s" by simp
    from step.IH(1)[OF node(1) ok0] step.IH(2)[OF node(1,2)] ok1 vo
      step.prems(2) node(4)
    show ?thesis by auto
  qed
qed

lemma bdd_build_succeeds:
  "(\<And>e'. e' \<in> set (oracle_calls (bdd_trace f idx e s)) \<Longrightarrow> \<exists>val. f (map_of e') = Inr val) \<Longrightarrow>
   idx \<le> length (var_order s) \<Longrightarrow> \<exists>r s'. bdd_build f idx e s = Inr (r, s')"
proof (induction f idx e s rule: bdd_build_induct')
  case (step f idx e s)
  show ?case
  proof (cases rule: bdd_run_cases[of s idx f e])
    case index
    with step.prems(2) show ?thesis by simp
  next
    case (leaf_fail x)
    with step.prems(1)[of e] show ?thesis by simp
  next
    case (leaf val)
    then show ?thesis by simp
  next
    case (fail0 x)
    have "\<exists>r s'. bdd_build f (idx + 1) (AList.update (var_order s ! idx) 0 e) s = Inr (r, s')"
      using step.IH(1)[OF fail0(1)] step.prems(1) fail0(1,3) by simp
    with fail0(2) show ?thesis by simp
  next
    case (fail1 lo s1 x)
    from bdd_build_count[OF fail1(2)] have vo: "var_order s1 = var_order s" by simp
    have "\<exists>r s'. bdd_build f (idx + 1) (AList.update (var_order s ! idx) 1 e) s1 = Inr (r, s')"
      using step.IH(2)[OF fail1(1,2)] step.prems(1) fail1(1,4) vo by simp
    with fail1(3) show ?thesis by simp
  next
    case (node lo s1 hi s2)
    then show ?thesis by (cases "new_node (var_order s ! idx) lo hi s2") simp
  qed
qed

lemma bdd_oracle_count:
  "length (oracle_calls (bdd_trace f idx e s)) \<le> 2 ^ (length (var_order s) - idx)"
proof (induction f idx e s rule: bdd_build_induct')
  case (step f idx e s)
  have pw: "(2::nat) ^ (length (var_order s) - idx) =
            2 * 2 ^ (length (var_order s) - (idx + 1))" if "idx < length (var_order s)"
  proof -
    from that have "length (var_order s) - idx = Suc (length (var_order s) - (idx + 1))"
      by simp
    then show ?thesis by simp
  qed
  show ?case
  proof (cases rule: bdd_run_cases[of s idx f e])
    case index
    then show ?thesis by simp
  next
    case (leaf_fail x)
    then show ?thesis by simp
  next
    case (leaf val)
    then show ?thesis by simp
  next
    case (fail0 x)
    from step.IH(1)[OF fail0(1)] fail0(3) pw[OF fail0(1)] show ?thesis by simp
  next
    case (fail1 lo s1 x)
    from bdd_build_count[OF fail1(2)] have vo: "var_order s1 = var_order s" by simp
    from step.IH(1)[OF fail1(1)] step.IH(2)[OF fail1(1,2)] vo fail1(4) pw[OF fail1(1)]
    show ?thesis by simp
  next
    case (node lo s1 hi s2)
    from bdd_build_count[OF node(2)] have vo: "var_order s1 = var_order s" by simp
    from step.IH(1)[OF node(1)] step.IH(2)[OF node(1,2)] vo node(4) pw[OF node(1)]
    show ?thesis by simp
  qed
qed

section \<open>Functional equivalence and totality\<close>

lemma new_node_represents:
  assumes wf: "wf_nodes ns" and lo: "lo < length ns" and hi: "hi < length ns"
    and i: "i < length order"
    and r0: "represents f order ns (Suc i) (m(order ! i \<mapsto> 0)) lo"
    and r1: "represents f order ns (Suc i) (m(order ! i \<mapsto> 1)) hi"
  shows "represents f order (ns @ [\<lparr>var = Some (order ! i), low = lo, high = hi\<rparr>]) i m (length ns)"
  unfolding represents_def
proof (intro allI impI)
  fix A assume A: "complete_map order A"
  let ?v = "order ! i"
  let ?ns = "ns @ [\<lparr>var = Some ?v, low = lo, high = hi\<rparr>]"
  from i have "?v \<in> set order" by simp
  with A have b: "A ?v = Some 0 \<or> A ?v = Some 1" unfolding complete_map_def by metis
  from r0 A obtain v0 where v0: "f (m(?v \<mapsto> 0) ++ A |` set (drop (Suc i) order)) = Inr v0"
    "traverse (Suc lo) ns A lo = Some (if v0 = 1 then 1 else 0)"
    unfolding represents_def by blast
  from r1 A obtain v1 where v1: "f (m(?v \<mapsto> 1) ++ A |` set (drop (Suc i) order)) = Inr v1"
    "traverse (Suc hi) ns A hi = Some (if v1 = 1 then 1 else 0)"
    unfolding represents_def by blast
  from wf have len: "2 \<le> length ns" by (simp add: wf_nodes_def)
  have wf': "wf_nodes ?ns" by (rule wf_nodes_snoc[OF wf lo hi])
  have r: "2 \<le> length ns" "length ns < length ?ns"
    "?ns ! length ns = \<lparr>var = Some ?v, low = lo, high = hi\<rparr>"
    using len by simp_all
  have t0': "traverse (Suc lo) ?ns A lo = Some (if v0 = 1 then 1 else 0)"
    by (rule traverse_mono[OF v0(2) le_refl])
  have t1': "traverse (Suc hi) ?ns A hi = Some (if v1 = 1 then 1 else 0)"
    by (rule traverse_mono[OF v1(2) le_refl])
  from b show "\<exists>val. f (m ++ A |` set (drop i order)) = Inr val \<and>
               traverse (Suc (length ns)) ?ns A (length ns) = Some (if val = 1 then 1 else 0)"
  proof
    assume a: "A ?v = Some 0"
    from traverse_node[OF wf' r a _ t0' t1']
    have "traverse (Suc (length ns)) ?ns A (length ns) = Some (if v0 = 1 then 1 else 0)" by simp
    with v0(1) merge_bind[of A ?v _ m "set (drop (Suc i) order)", OF a] set_drop_nth[OF i]
    show ?thesis by auto
  next
    assume a: "A ?v = Some 1"
    from traverse_node[OF wf' r a _ t0' t1']
    have "traverse (Suc (length ns)) ?ns A (length ns) = Some (if v1 = 1 then 1 else 0)" by simp
    with v1(1) merge_bind[of A ?v _ m "set (drop (Suc i) order)", OF a] set_drop_nth[OF i]
    show ?thesis by auto
  qed
qed

lemma bdd_build_sem:
  "bdd_build f idx e s = Inr (r, s') \<Longrightarrow> wf_nodes (nodes s) \<Longrightarrow>
   represents f (var_order s) (nodes s') idx (map_of e) r"
proof (induction f idx e s arbitrary: r s' rule: bdd_build_induct')
  case (step f idx e s)
  note wf = step.prems(2)
  let ?order = "var_order s"
  from step.prems(1) show ?case
  proof (cases rule: bdd_build_cases)
    case (leaf val)
    from represents_leaf[of "nodes s" idx ?order f "map_of e" val, OF wf leaf(1) leaf(2)] leaf(3,4)
    show ?thesis by simp
  next
    case (node lo s1 hi s2)
    let ?v = "?order ! idx"
    from bdd_build_wf[OF node(2) wf] obtain ms1 where
      s1: "wf_nodes (nodes s1)" "var_order s1 = ?order" "nodes s1 = nodes s @ ms1"
        "lo < length (nodes s1)"
      by blast
    from bdd_build_wf[OF node(3) s1(1)] obtain ms2 where
      s2: "wf_nodes (nodes s2)" "var_order s2 = var_order s1" "nodes s2 = nodes s1 @ ms2"
        "hi < length (nodes s2)"
      by blast
    from step.IH(1)[OF node(1,2) wf]
    have r0: "represents f ?order (nodes s1) (idx + 1) (map_of (AList.update ?v 0 e)) lo" .
    from step.IH(2)[OF node(1,2,3) s1(1)] s1(2)
    have r1: "represents f ?order (nodes s2) (idx + 1) (map_of (AList.update ?v 1 e)) hi"
      by simp
    from represents_mono[OF r0, of ms2] s2(3)
    have r0': "represents f ?order (nodes s2) (Suc idx) ((map_of e)(?v \<mapsto> 0)) lo"
      by (simp add: update_conv')
    from r1 have r1': "represents f ?order (nodes s2) (Suc idx) ((map_of e)(?v \<mapsto> 1)) hi"
      by (simp add: update_conv')
    from s1(4) s2(3) have lo2: "lo < length (nodes s2)" by simp
    from new_node_represents[OF s2(1) lo2 s2(4) node(1) r0' r1'] node(4,5)
    show ?thesis by simp
  qed
qed

lemma complete_complete_map: "complete order A \<Longrightarrow> complete_map order (map_of A)"
  unfolding complete_def complete_map_def
proof (intro allI)
  fix v
  assume c: "distinct (map fst A) \<and> set (map fst A) = set order \<and>
     (\<forall>p \<in> set A. snd p = 0 \<or> snd p = 1)"
  show "if v \<in> set order then map_of A v = Some 0 \<or> map_of A v = Some 1
        else map_of A v = None"
  proof (cases "v \<in> set order")
    case True
    with c have "v \<in> fst ` set A" by simp
    then obtain b where b: "map_of A v = Some b" by (cases "map_of A v") (auto simp: map_of_eq_None_iff)
    then have "(v, b) \<in> set A" by (rule map_of_SomeD)
    with c have "b = 0 \<or> b = 1" by auto
    with b True show ?thesis by simp
  next
    case False
    with c have "v \<notin> fst ` set A" by simp
    with False show ?thesis by (simp add: map_of_eq_None_iff)
  qed
qed

lemma complete_restrict: "complete order A \<Longrightarrow> map_of A |` set order = map_of A"
proof -
  assume "complete order A"
  then have "dom (map_of A) = set order" by (simp add: complete_def dom_map_of_conv_image_fst)
  then have "map_of A x = None" if "x \<notin> set order" for x
    using that by (metis domIff)
  then show ?thesis
    by (auto simp: restrict_map_def fun_eq_iff)
qed

lemma represents_root:
  assumes rep: "represents f order ns 0 Map.empty root" and root: "root < length ns"
    and A: "complete order A"
  shows "\<exists>val. f (map_of A) = Inr val \<and>
           traverse (length ns) ns (map_of A) root = Some (if val = 1 then 1 else 0)"
proof -
  from rep complete_complete_map[OF A] obtain val where
    v: "f (Map.empty ++ map_of A |` set (drop 0 order)) = Inr val"
       "traverse (Suc root) ns (map_of A) root = Some (if val = 1 then 1 else 0)"
    unfolding represents_def by blast
  from v(1) complete_restrict[OF A] have "f (map_of A) = Inr val" by simp
  moreover from traverse_fuel[OF v(2), of "length ns"] root
  have "traverse (length ns) ns (map_of A) root = Some (if val = 1 then 1 else 0)" by simp
  ultimately show ?thesis by blast
qed

lemma memo_sem_init: "memo_sem f (ROBDD_init order)"
  by (simp add: memo_sem_def ROBDD_init_def)

lemma robdd_build_total:
  assumes "\<And>A. complete order A \<Longrightarrow> \<exists>val. f (map_of A) = Inr val"
  shows "\<exists>root s. robdd_build f 0 [] (ROBDD_init order) = Inr (root, s)"
proof (rule robdd_build_succeeds)
  fix e' assume "e' \<in> set (oracle_calls (robdd_trace f 0 [] (ROBDD_init order)))"
  from robdd_trace_complete[OF _ this] have "complete order e'"
    by (simp add: ROBDD_init_def env_ok_init)
  then show "\<exists>val. f (map_of e') = Inr val" by (rule assms)
qed simp

lemma bdd_build_total:
  assumes "\<And>A. complete order A \<Longrightarrow> \<exists>val. f (map_of A) = Inr val"
  shows "\<exists>root s. bdd_build f 0 [] (BDD_init order) = Inr (root, s)"
proof (rule bdd_build_succeeds)
  fix e' assume "e' \<in> set (oracle_calls (bdd_trace f 0 [] (BDD_init order)))"
  from bdd_trace_complete[OF _ this] have "complete order e'"
    by (simp add: BDD_init_def env_ok_init)
  then show "\<exists>val. f (map_of e') = Inr val" by (rule assms)
qed simp

lemma robdd_build_equiv:
  assumes run: "robdd_build f 0 [] (ROBDD_init order) = Inr (root, s)" and A: "complete order A"
  shows "\<exists>val. f (map_of A) = Inr val \<and>
           traverse (length (nodes s)) (nodes s) (map_of A) root = Some (if val = 1 then 1 else 0)"
proof -
  from robdd_build_sinv[OF run sinv_init] have root: "root < length (nodes s)" by simp
  from robdd_build_sem[OF run sinv_init memo_sem_init]
  have "represents f order (nodes s) 0 Map.empty root" by (simp add: ROBDD_init_def)
  from represents_root[OF this root A] show ?thesis .
qed

lemma bdd_build_equiv:
  assumes run: "bdd_build f 0 [] (BDD_init order) = Inr (root, s)" and A: "complete order A"
  shows "\<exists>val. f (map_of A) = Inr val \<and>
           traverse (length (nodes s)) (nodes s) (map_of A) root = Some (if val = 1 then 1 else 0)"
proof -
  have wf: "wf_nodes (nodes (BDD_init order))" by (simp add: BDD_init_def wf_nodes_init)
  from bdd_build_wf[OF run wf] have root: "root < length (nodes s)" by simp
  from bdd_build_sem[OF run wf]
  have "represents f order (nodes s) 0 Map.empty root" by (simp add: BDD_init_def)
  from represents_root[OF this root A] show ?thesis .
qed

section \<open>The hardcoded formulas, and failure of a build\<close>

lemma getitem_bound: "k \<in> fst ` set A \<Longrightarrow> \<exists>x. getitem (map_of A) k = Inr x"
  by (cases "map_of A k") (auto simp: getitem_def map_of_eq_None_iff)

lemma formula1_total:
  assumes "{''a'', ''b'', ''c'', ''d''} \<subseteq> fst ` set A"
  shows "formula1 (map_of A) = Inr 0 \<or> formula1 (map_of A) = Inr 1"
proof -
  from assms getitem_bound[of _ A] obtain a b c d where
    "getitem (map_of A) ''a'' = Inr a" "getitem (map_of A) ''b'' = Inr b"
    "getitem (map_of A) ''c'' = Inr c" "getitem (map_of A) ''d'' = Inr d"
    by (meson insert_subset)
  then show ?thesis by (simp add: formula1_def Let_def)
qed

lemma formula2_total:
  assumes "{''x1'', ''x2'', ''x3'', ''x4'', ''x5''} \<subseteq> fst ` set A"
  shows "formula2 (map_of A) = Inr 0 \<or> formula2 (map_of A) = Inr 1"
proof -
  from assms getitem_bound[of _ A] obtain x1 x2 x3 x4 x5 where
    "getitem (map_of A) ''x1'' = Inr x1" "getitem (map_of A) ''x2'' = Inr x2"
    "getitem (map_of A) ''x3'' = Inr x3" "getitem (map_of A) ''x4'' = Inr x4"
    "getitem (map_of A) ''x5'' = Inr x5"
    by (meson insert_subset)
  then show ?thesis by (simp add: formula2_def Let_def)
qed

lemma complete_keys: "complete order A \<Longrightarrow> fst ` set A = set order"
  by (simp add: complete_def)

lemma robdd_build_fails:
  "robdd_build f idx e s = Inl x \<Longrightarrow> idx \<le> length (var_order s) \<Longrightarrow>
   \<exists>e' \<in> set (oracle_calls (robdd_trace f idx e s)). f (map_of e') = Inl x"
proof (induction f idx e s rule: robdd_build_induct')
  case (step f idx e s)
  show ?case
  proof (cases rule: robdd_run_cases[of s idx e f])
    case (hit n)
    with step.prems show ?thesis by simp
  next
    case index
    with step.prems show ?thesis by simp
  next
    case (leaf_fail y)
    with step.prems show ?thesis by simp
  next
    case (leaf val)
    with step.prems show ?thesis by simp
  next
    case (fail0 y)
    with step.prems(1) have xy: "y = x" by simp
    from step.IH(1)[OF fail0(1,2) fail0(3)[unfolded xy]] fail0(2,4) show ?thesis by simp
  next
    case (fail1 lo s1 y)
    with step.prems(1) have xy: "y = x" by simp
    from robdd_build_count[OF fail1(3)] have vo: "var_order s1 = var_order s" by simp
    from step.IH(2)[OF fail1(1,2,3) fail1(4)[unfolded xy]] fail1(2,5) vo show ?thesis by auto
  next
    case (node lo s1 hi s2 r s3)
    with step.prems show ?thesis by simp
  qed
qed

lemma formula2_threshold:
  assumes A: "complete order2 A"
  shows "formula2 (map_of A) = Inr (if 3 \<le> count_ones order2 A then 1 else 0)"
proof -
  from complete_complete_map[OF A] have
    h: "map_of A ''x1'' = Some 0 \<or> map_of A ''x1'' = Some 1"
       "map_of A ''x2'' = Some 0 \<or> map_of A ''x2'' = Some 1"
       "map_of A ''x3'' = Some 0 \<or> map_of A ''x3'' = Some 1"
       "map_of A ''x4'' = Some 0 \<or> map_of A ''x4'' = Some 1"
       "map_of A ''x5'' = Some 0 \<or> map_of A ''x5'' = Some 1"
    unfolding complete_map_def order2_def by (metis list.set_intros)+
  from h show ?thesis
    by (elim disjE) (simp_all add: formula2_def getitem_def count_ones_def order2_def)
qed

section \<open>The configured runs\<close>

lemma robdd_run1:
  "\<exists>s. robdd_build formula1 0 [] (ROBDD_init order1) = Inr (6, s) \<and> nodes s = robdd_nodes1"
proof -
  have "case robdd_build formula1 0 [] (ROBDD_init order1) of
          Inl e \<Rightarrow> False | Inr (r, s) \<Rightarrow> r = 6 \<and> nodes s = robdd_nodes1"
    by code_simp
  then show ?thesis
    by (cases "robdd_build formula1 0 [] (ROBDD_init order1)") auto
qed

lemma bdd_run1:
  "\<exists>s. bdd_build formula1 0 [] (BDD_init order1) = Inr (16, s) \<and> length (nodes s) = 17"
proof -
  have "case bdd_build formula1 0 [] (BDD_init order1) of
          Inl e \<Rightarrow> False | Inr (r, s) \<Rightarrow> r = 16 \<and> length (nodes s) = 17"
    by code_simp
  then show ?thesis
    by (cases "bdd_build formula1 0 [] (BDD_init order1)") auto
qed

section \<open>Claims\<close>

text \<open>
  C3. After a reduced build, no non-terminal node of the store has its low child equal
  to its high child: \<open>mk\<close> returns the common child without allocating when the two
  are equal.
\<close>

theorem robdd_no_redundant_test:
  assumes "robdd_build f 0 [] (ROBDD_init order) = Inr (root, s)"
    and "2 \<le> j" and "j < length (nodes s)"
  shows "low (nodes s ! j) \<noteq> high (nodes s ! j) \<and> mk v c c t = (c, t)"
proof
  from robdd_build_sinv[OF assms(1) sinv_init] have "reduced s" by (simp add: sinv_def)
  with assms(2,3) show "low (nodes s ! j) \<noteq> high (nodes s ! j)"
    unfolding reduced_def by blast
  show "mk v c c t = (c, t)" by (simp add: mk_def)
qed

theorem robdd_no_redundant_test_witness:
  "\<exists>root s. robdd_build formula1 0 [] (ROBDD_init order1) = Inr (root, s) \<and>
     (2::nat) \<le> 2 \<and> 2 < length (nodes s) \<and> low (nodes s ! 2) \<noteq> high (nodes s ! 2) \<and>
     mk ''d'' 1 1 s = (1, s)"
proof -
  from robdd_run1 obtain s where
    run: "robdd_build formula1 0 [] (ROBDD_init order1) = Inr (6, s)" and
    ns: "nodes s = robdd_nodes1"
    by blast
  have len: "2 < length (nodes s)" by (simp add: ns robdd_nodes1_def)
  from robdd_no_redundant_test[OF run _ len, of "''d''" 1 s] run len show ?thesis by blast
qed

text \<open>
  C2. After a reduced build, two distinct non-terminal node ids never carry the same
  (variable, low, high) triple.
\<close>

theorem robdd_canonical:
  assumes "robdd_build f 0 [] (ROBDD_init order) = Inr (root, s)"
    and "2 \<le> i" "i < length (nodes s)" "2 \<le> j" "j < length (nodes s)" "i \<noteq> j"
  shows "(var (nodes s ! i), low (nodes s ! i), high (nodes s ! i)) \<noteq>
         (var (nodes s ! j), low (nodes s ! j), high (nodes s ! j))"
proof
  assume eq: "(var (nodes s ! i), low (nodes s ! i), high (nodes s ! i)) =
         (var (nodes s ! j), low (nodes s ! j), high (nodes s ! j))"
  from robdd_build_sinv[OF assms(1) sinv_init] have red: "reduced s" by (simp add: sinv_def)
  from red assms(2,3) obtain v where
    i: "var (nodes s ! i) = Some v"
       "unique_table s (v, low (nodes s ! i), high (nodes s ! i)) = Some i"
    unfolding reduced_def by blast
  from red assms(4,5) obtain w where
    j: "var (nodes s ! j) = Some w"
       "unique_table s (w, low (nodes s ! j), high (nodes s ! j)) = Some j"
    unfolding reduced_def by blast
  from eq have e: "var (nodes s ! i) = var (nodes s ! j)"
    "low (nodes s ! i) = low (nodes s ! j)" "high (nodes s ! i) = high (nodes s ! j)"
    by (simp_all only: prod.inject)
  from e(1) i(1) j(1) have "v = w" by (metis option.inject)
  with i(2) e(2,3) have "unique_table s (w, low (nodes s ! j), high (nodes s ! j)) = Some i"
    by (metis)
  with j(2) have "i = j" by (metis option.inject)
  with assms(6) show False by (rule notE)
qed

theorem robdd_canonical_witness:
  "\<exists>root s. robdd_build formula1 0 [] (ROBDD_init order1) = Inr (root, s) \<and>
     3 < length (nodes s) \<and>
     (var (nodes s ! 2), low (nodes s ! 2), high (nodes s ! 2)) \<noteq>
     (var (nodes s ! 3), low (nodes s ! 3), high (nodes s ! 3))"
proof -
  from robdd_run1 obtain s where
    run: "robdd_build formula1 0 [] (ROBDD_init order1) = Inr (6, s)" and
    ns: "nodes s = robdd_nodes1"
    by blast
  have len: "2 < length (nodes s)" "3 < length (nodes s)" by (simp_all add: ns robdd_nodes1_def)
  from robdd_canonical[OF run _ len(1) _ len(2)]
  have "(var (nodes s ! 2), low (nodes s ! 2), high (nodes s ! 2)) \<noteq>
     (var (nodes s ! 3), low (nodes s ! 3), high (nodes s ! 3))" by simp
  with run len show ?thesis by (intro exI[of _ 6] exI[of _ s]) simp
qed

text \<open>
  C9. In both variants every non-terminal node of the store has its low child and its
  high child at ids strictly below its own, so each child is a stored node and the
  edge relation has no cycle.
\<close>

theorem children_before_parents:
  "(robdd_build f 0 [] (ROBDD_init order) = Inr (root, s) \<longrightarrow>
      (\<forall>j. 2 \<le> j \<and> j < length (nodes s) \<longrightarrow>
         low (nodes s ! j) < j \<and> high (nodes s ! j) < j) \<and>
      acyclic (edges (nodes s))) \<and>
   (bdd_build f 0 [] (BDD_init order) = Inr (root', s') \<longrightarrow>
      (\<forall>j. 2 \<le> j \<and> j < length (nodes s') \<longrightarrow>
         low (nodes s' ! j) < j \<and> high (nodes s' ! j) < j) \<and>
      acyclic (edges (nodes s')))"
proof (intro conjI impI)
  assume "robdd_build f 0 [] (ROBDD_init order) = Inr (root, s)"
  from robdd_build_sinv[OF this sinv_init] have wf: "wf_nodes (nodes s)" by (simp add: sinv_def)
  then show "\<forall>j. 2 \<le> j \<and> j < length (nodes s) \<longrightarrow>
         low (nodes s ! j) < j \<and> high (nodes s ! j) < j"
    unfolding wf_nodes_def by blast
  from wf show "acyclic (edges (nodes s))" by (rule wf_nodes_acyclic)
next
  assume "bdd_build f 0 [] (BDD_init order) = Inr (root', s')"
  from bdd_build_wf[OF this] have wf: "wf_nodes (nodes s')"
    by (simp add: BDD_init_def wf_nodes_init)
  then show "\<forall>j. 2 \<le> j \<and> j < length (nodes s') \<longrightarrow>
         low (nodes s' ! j) < j \<and> high (nodes s' ! j) < j"
    unfolding wf_nodes_def by blast
  from wf show "acyclic (edges (nodes s'))" by (rule wf_nodes_acyclic)
qed

theorem children_before_parents_witness:
  "\<exists>root s root' s'.
     robdd_build formula1 0 [] (ROBDD_init order1) = Inr (root, s) \<and>
     bdd_build formula1 0 [] (BDD_init order1) = Inr (root', s') \<and>
     2 < length (nodes s) \<and> low (nodes s ! 2) < 2 \<and> high (nodes s ! 2) < 2 \<and>
     2 < length (nodes s') \<and> low (nodes s' ! 2) < 2 \<and> high (nodes s' ! 2) < 2 \<and>
     acyclic (edges (nodes s)) \<and> acyclic (edges (nodes s'))"
proof -
  from robdd_run1 obtain s where
    run: "robdd_build formula1 0 [] (ROBDD_init order1) = Inr (6, s)" and
    ns: "nodes s = robdd_nodes1"
    by blast
  from bdd_run1 obtain s' where
    run': "bdd_build formula1 0 [] (BDD_init order1) = Inr (16, s')" and
    ns': "length (nodes s') = 17"
    by blast
  have len: "2 < length (nodes s)" by (simp add: ns robdd_nodes1_def)
  have len': "2 < length (nodes s')" by (simp add: ns')
  from children_before_parents[of formula1 order1 6 s 16 s'] run run'
  have a: "\<forall>j. 2 \<le> j \<and> j < length (nodes s) \<longrightarrow>
         low (nodes s ! j) < j \<and> high (nodes s ! j) < j"
    and b: "acyclic (edges (nodes s))"
    and c: "\<forall>j. 2 \<le> j \<and> j < length (nodes s') \<longrightarrow>
         low (nodes s' ! j) < j \<and> high (nodes s' ! j) < j"
    and d: "acyclic (edges (nodes s'))"
    by blast+
  from a len have a2: "low (nodes s ! 2) < 2 \<and> high (nodes s ! 2) < 2" by simp
  from c len' have c2: "low (nodes s' ! 2) < 2 \<and> high (nodes s' ! 2) < 2" by simp
  from run run' len len' a2 b c2 d show ?thesis
    by (intro exI[of _ 6] exI[of _ s] exI[of _ 16] exI[of _ s']) simp
qed

text \<open>
  C6. For the same order and formula, the reduced build leaves at most as many nodes
  in the store as the unreduced build.
\<close>

theorem sharing_monotonicity:
  assumes "robdd_build f 0 [] (ROBDD_init order) = Inr (root, s)"
    and "bdd_build f 0 [] (BDD_init order) = Inr (root', s')"
  shows "length (nodes s) \<le> length (nodes s')"
  using robdd_build_count[OF assms(1)] bdd_build_count[OF assms(2)]
  by (simp add: ROBDD_init_def BDD_init_def)

theorem sharing_monotonicity_witness:
  "\<exists>root s root' s'.
     robdd_build formula1 0 [] (ROBDD_init order1) = Inr (root, s) \<and>
     bdd_build formula1 0 [] (BDD_init order1) = Inr (root', s') \<and>
     length (nodes s) = 7 \<and> length (nodes s') = 17 \<and> length (nodes s) \<le> length (nodes s')"
proof -
  from robdd_run1 obtain s where
    run: "robdd_build formula1 0 [] (ROBDD_init order1) = Inr (6, s)" and
    ns: "nodes s = robdd_nodes1"
    by blast
  from bdd_run1 obtain s' where
    run': "bdd_build formula1 0 [] (BDD_init order1) = Inr (16, s')" and
    ns': "length (nodes s') = 17"
    by blast
  have "length (nodes s) = 7" by (simp add: ns robdd_nodes1_def)
  with sharing_monotonicity[OF run run'] run run' ns' show ?thesis
    by (intro exI[of _ 6] exI[of _ s] exI[of _ 16] exI[of _ s']) simp
qed

text \<open>
  C7. Scenario A: with order a, c, b, d and the formula (a and not c) or (b xor d),
  the formula gives 1 on a=1, c=0, b=0, d=0 and 0 on a=0, c=1, b=0, d=0, and the
  traversal of the reduced and of the unreduced diagram from the root reaches
  terminal 1 and terminal 0 on them.
\<close>

theorem scenario_A:
  "formula1 (map_of scenarioA_true) = Inr 1 \<and>
   formula1 (map_of scenarioA_false) = Inr 0 \<and>
   (case robdd_build formula1 0 [] (ROBDD_init order1) of
      Inl e \<Rightarrow> False
    | Inr (root, s) \<Rightarrow>
        traverse (length (nodes s)) (nodes s) (map_of scenarioA_true) root = Some 1 \<and>
        traverse (length (nodes s)) (nodes s) (map_of scenarioA_false) root = Some 0) \<and>
   (case bdd_build formula1 0 [] (BDD_init order1) of
      Inl e \<Rightarrow> False
    | Inr (root, s) \<Rightarrow>
        traverse (length (nodes s)) (nodes s) (map_of scenarioA_true) root = Some 1 \<and>
        traverse (length (nodes s)) (nodes s) (map_of scenarioA_false) root = Some 0)"
  by code_simp

text \<open>
  C1. Functional equivalence of the reduced build. For a formula that returns 0 or 1
  on every complete assignment over the order, the build started at depth 0 with the
  empty assignment returns a root, and for every complete assignment the traversal
  from that root (low edge on 0, high edge on 1) reaches the terminal whose value is
  the formula's output on the assignment.
\<close>

theorem robdd_functional_equivalence:
  assumes contract: "\<And>A. complete order A \<Longrightarrow> f (map_of A) = Inr 0 \<or> f (map_of A) = Inr 1"
  shows "\<exists>root s. robdd_build f 0 [] (ROBDD_init order) = Inr (root, s) \<and>
           (\<forall>A. complete order A \<longrightarrow>
              (\<exists>val. f (map_of A) = Inr val \<and>
                 traverse (length (nodes s)) (nodes s) (map_of A) root = Some (nat val)))"
proof -
  have "\<exists>root s. robdd_build f 0 [] (ROBDD_init order) = Inr (root, s)"
  proof (rule robdd_build_total)
    fix A assume "complete order A"
    from contract[OF this] show "\<exists>val. f (map_of A) = Inr val" by blast
  qed
  then obtain root s where run: "robdd_build f 0 [] (ROBDD_init order) = Inr (root, s)"
    by blast
  have "\<exists>val. f (map_of A) = Inr val \<and>
          traverse (length (nodes s)) (nodes s) (map_of A) root = Some (nat val)"
    if A: "complete order A" for A
  proof -
    from robdd_build_equiv[OF run A] obtain val where
      v: "f (map_of A) = Inr val"
         "traverse (length (nodes s)) (nodes s) (map_of A) root = Some (if val = 1 then 1 else 0)"
      by blast
    from contract[OF A] v(1) have "val = 0 \<or> val = 1" by simp
    then have "(if val = 1 then 1 else 0) = nat val" by auto
    with v show ?thesis by simp
  qed
  with run show ?thesis by blast
qed

theorem robdd_functional_equivalence_witness:
  "\<exists>root s. robdd_build formula1 0 [] (ROBDD_init order1) = Inr (root, s) \<and>
     complete order1 scenarioA_true \<and> formula1 (map_of scenarioA_true) = Inr 1 \<and>
     traverse (length (nodes s)) (nodes s) (map_of scenarioA_true) root = Some 1"
proof -
  have contract: "formula1 (map_of A) = Inr 0 \<or> formula1 (map_of A) = Inr 1"
    if "complete order1 A" for A
  proof (rule formula1_total)
    from complete_keys[OF that] show "{''a'', ''b'', ''c'', ''d''} \<subseteq> fst ` set A"
      by (simp add: order1_def)
  qed
  have c: "complete order1 scenarioA_true" by code_simp
  have v: "formula1 (map_of scenarioA_true) = Inr 1" by code_simp
  from robdd_functional_equivalence[of order1 formula1, OF contract] obtain root s where
    run: "robdd_build formula1 0 [] (ROBDD_init order1) = Inr (root, s)" and
    eq: "\<forall>A. complete order1 A \<longrightarrow>
              (\<exists>val. formula1 (map_of A) = Inr val \<and>
                 traverse (length (nodes s)) (nodes s) (map_of A) root = Some (nat val))"
    by blast
  from eq c v have "traverse (length (nodes s)) (nodes s) (map_of scenarioA_true) root = Some 1"
    by fastforce
  with run c v show ?thesis by blast
qed

text \<open>
  C4, as stated: a variable order with duplicate names makes the build fail. The code
  has no such check: with \<open>d\<close> named twice the reduced build returns root 6 and the
  same seven nodes as for the configured order.
\<close>

theorem duplicate_order_accepted:
  "\<not> distinct order1_dup \<and>
   \<not> isl (robdd_build formula1 0 [] (ROBDD_init order1_dup)) \<and>
   fst (projr (robdd_build formula1 0 [] (ROBDD_init order1_dup))) = 6 \<and>
   nodes (snd (projr (robdd_build formula1 0 [] (ROBDD_init order1_dup)))) = robdd_nodes1"
  by code_simp

text \<open>
  C4, amended. For an order with duplicate names the build makes no check of the
  order: it returns a result whenever the formula returns a value on every complete
  assignment over the order's names, and when it fails it fails with an error that
  the formula itself raised on a complete assignment.
\<close>

theorem build_without_order_check:
  assumes "\<not> distinct order"
  shows "((\<forall>A. complete order A \<longrightarrow> (\<exists>val. f (map_of A) = Inr val)) \<longrightarrow>
           (\<exists>root s. robdd_build f 0 [] (ROBDD_init order) = Inr (root, s))) \<and>
         (robdd_build f 0 [] (ROBDD_init order) = Inl x \<longrightarrow>
           (\<exists>A. complete order A \<and> f (map_of A) = Inl x))"
proof (intro conjI impI)
  assume "\<forall>A. complete order A \<longrightarrow> (\<exists>val. f (map_of A) = Inr val)"
  then show "\<exists>root s. robdd_build f 0 [] (ROBDD_init order) = Inr (root, s)"
    by (intro robdd_build_total) blast
next
  assume "robdd_build f 0 [] (ROBDD_init order) = Inl x"
  from robdd_build_fails[OF this] obtain e' where
    e': "e' \<in> set (oracle_calls (robdd_trace f 0 [] (ROBDD_init order)))" "f (map_of e') = Inl x"
    by auto
  from robdd_trace_complete[OF _ e'(1)] have "complete order e'"
    by (simp add: ROBDD_init_def env_ok_init)
  with e'(2) show "\<exists>A. complete order A \<and> f (map_of A) = Inl x" by blast
qed

theorem build_without_order_check_witness:
  "\<not> distinct order1_dup \<and>
   (\<exists>root s. robdd_build formula1 0 [] (ROBDD_init order1_dup) = Inr (root, s))"
proof -
  have d: "\<not> distinct order1_dup" by (simp add: order1_dup_def)
  have contract: "\<forall>A. complete order1_dup A \<longrightarrow> (\<exists>val. formula1 (map_of A) = Inr val)"
  proof (intro allI impI)
    fix A assume "complete order1_dup A"
    from complete_keys[OF this] have "{''a'', ''b'', ''c'', ''d''} \<subseteq> fst ` set A"
      by (simp add: order1_dup_def)
    from formula1_total[OF this] show "\<exists>val. formula1 (map_of A) = Inr val" by blast
  qed
  from build_without_order_check[OF d, of formula1] contract d show ?thesis by blast
qed

text \<open>
  C5, as stated: the number of calls of the formula is at most the number of nodes of
  the final graph, for the reduced variant the reduced node count. For the configured
  order the reduced build calls the formula 16 times and leaves 7 nodes: the memo key
  holds the whole partial assignment, so no two calls of one build share a key.
\<close>

theorem oracle_calls_exceed_reduced_nodes:
  "\<not> isl (robdd_build formula1 0 [] (ROBDD_init order1)) \<and>
   length (oracle_calls (robdd_trace formula1 0 [] (ROBDD_init order1))) = 16 \<and>
   length (nodes (snd (projr (robdd_build formula1 0 [] (ROBDD_init order1))))) = 7 \<and>
   \<not> length (oracle_calls (robdd_trace formula1 0 [] (ROBDD_init order1)))
       \<le> length (nodes (snd (projr (robdd_build formula1 0 [] (ROBDD_init order1)))))"
  by code_simp

text \<open>
  C5, amended. During a build started at depth 0 with the empty assignment each memo
  key is computed (stored) at most once, and the formula is called at most \<open>2 ^ n\<close>
  times for \<open>n\<close> variables; for the unreduced variant that is at most the final node
  count.
\<close>

theorem memo_once_oracle_bound:
  "distinct (computed_keys (robdd_trace f 0 [] (ROBDD_init order))) \<and>
   length (oracle_calls (robdd_trace f 0 [] (ROBDD_init order))) \<le> 2 ^ length order \<and>
   (bdd_build f 0 [] (BDD_init order) = Inr (root, s) \<longrightarrow>
      length (oracle_calls (bdd_trace f 0 [] (BDD_init order))) \<le> length (nodes s))"
proof (intro conjI impI)
  show "distinct (computed_keys (robdd_trace f 0 [] (ROBDD_init order)))"
    using robdd_keys[of f 0 "[]" "ROBDD_init order"] by blast
  show "length (oracle_calls (robdd_trace f 0 [] (ROBDD_init order))) \<le> 2 ^ length order"
    using robdd_oracle_count[of f 0 "[]" "ROBDD_init order"] by (simp add: ROBDD_init_def)
next
  assume run: "bdd_build f 0 [] (BDD_init order) = Inr (root, s)"
  from bdd_build_count[OF run] have "length (nodes s) = 2 ^ length order + 1"
    by (simp add: BDD_init_def)
  with bdd_oracle_count[of f 0 "[]" "BDD_init order"]
  show "length (oracle_calls (bdd_trace f 0 [] (BDD_init order))) \<le> length (nodes s)"
    by (simp add: BDD_init_def)
qed

theorem memo_once_oracle_bound_witness:
  "\<exists>s. bdd_build formula1 0 [] (BDD_init order1) = Inr (16, s) \<and>
     length (nodes s) = 17 \<and>
     length (oracle_calls (bdd_trace formula1 0 [] (BDD_init order1))) \<le> length (nodes s) \<and>
     distinct (computed_keys (robdd_trace formula1 0 [] (ROBDD_init order1))) \<and>
     length (oracle_calls (robdd_trace formula1 0 [] (ROBDD_init order1))) \<le> 2 ^ length order1"
proof -
  from bdd_run1 obtain s where
    run: "bdd_build formula1 0 [] (BDD_init order1) = Inr (16, s)" and
    ns: "length (nodes s) = 17"
    by blast
  from memo_once_oracle_bound[of formula1 order1 16 s] run ns show ?thesis by blast
qed

text \<open>
  C10. In a build started at depth 0 with the empty assignment, every dictionary the
  formula is called with binds every name of the order (each once, to 0 or 1), in the
  reduced and in the unreduced builder. So for an order that contains the names the
  hardcoded formula reads, as the configured orders do, every call of the formula
  returns a value and the build returns a result: no \<open>KeyError\<close> is raised.
\<close>

theorem formula_gets_complete_assignments:
  "(\<forall>e \<in> set (oracle_calls (robdd_trace f 0 [] (ROBDD_init order))). complete order e) \<and>
   (\<forall>e \<in> set (oracle_calls (bdd_trace f 0 [] (BDD_init order))). complete order e) \<and>
   ({''a'', ''b'', ''c'', ''d''} \<subseteq> set order \<longrightarrow>
      (\<forall>e \<in> set (oracle_calls (robdd_trace formula1 0 [] (ROBDD_init order))).
          \<exists>val. formula1 (map_of e) = Inr val) \<and>
      (\<forall>e \<in> set (oracle_calls (bdd_trace formula1 0 [] (BDD_init order))).
          \<exists>val. formula1 (map_of e) = Inr val) \<and>
      (\<exists>root s. robdd_build formula1 0 [] (ROBDD_init order) = Inr (root, s)) \<and>
      (\<exists>root s. bdd_build formula1 0 [] (BDD_init order) = Inr (root, s))) \<and>
   ({''x1'', ''x2'', ''x3'', ''x4'', ''x5''} \<subseteq> set order \<longrightarrow>
      (\<forall>e \<in> set (oracle_calls (bdd_trace formula2 0 [] (BDD_init order))).
          \<exists>val. formula2 (map_of e) = Inr val) \<and>
      (\<exists>root s. bdd_build formula2 0 [] (BDD_init order) = Inr (root, s)))"
proof -
  have r: "complete order e"
    if "e \<in> set (oracle_calls (robdd_trace g 0 [] (ROBDD_init order)))" for g e
    using robdd_trace_complete[OF _ that] by (simp add: ROBDD_init_def env_ok_init)
  have b: "complete order e"
    if "e \<in> set (oracle_calls (bdd_trace g 0 [] (BDD_init order)))" for g e
    using bdd_trace_complete[OF _ that] by (simp add: BDD_init_def env_ok_init)
  have f1: "\<exists>val. formula1 (map_of e) = Inr val"
    if "{''a'', ''b'', ''c'', ''d''} \<subseteq> set order" "complete order e" for e
    using formula1_total[of e] complete_keys[OF that(2)] that(1) by auto
  have f2: "\<exists>val. formula2 (map_of e) = Inr val"
    if "{''x1'', ''x2'', ''x3'', ''x4'', ''x5''} \<subseteq> set order" "complete order e" for e
    using formula2_total[of e] complete_keys[OF that(2)] that(1) by auto
  have t1: "\<exists>root s. robdd_build formula1 0 [] (ROBDD_init order) = Inr (root, s)"
    if "{''a'', ''b'', ''c'', ''d''} \<subseteq> set order"
    by (rule robdd_build_total) (rule f1[OF that])
  have t2: "\<exists>root s. bdd_build formula1 0 [] (BDD_init order) = Inr (root, s)"
    if "{''a'', ''b'', ''c'', ''d''} \<subseteq> set order"
    by (rule bdd_build_total) (rule f1[OF that])
  have t3: "\<exists>root s. bdd_build formula2 0 [] (BDD_init order) = Inr (root, s)"
    if "{''x1'', ''x2'', ''x3'', ''x4'', ''x5''} \<subseteq> set order"
    by (rule bdd_build_total) (rule f2[OF that])
  show ?thesis
  proof (intro conjI impI ballI)
    fix e assume "e \<in> set (oracle_calls (robdd_trace f 0 [] (ROBDD_init order)))"
    then show "complete order e" by (rule r)
  next
    fix e assume "e \<in> set (oracle_calls (bdd_trace f 0 [] (BDD_init order)))"
    then show "complete order e" by (rule b)
  next
    fix e assume "{''a'', ''b'', ''c'', ''d''} \<subseteq> set order"
      "e \<in> set (oracle_calls (robdd_trace formula1 0 [] (ROBDD_init order)))"
    then show "\<exists>val. formula1 (map_of e) = Inr val" using f1 r by blast
  next
    fix e assume "{''a'', ''b'', ''c'', ''d''} \<subseteq> set order"
      "e \<in> set (oracle_calls (bdd_trace formula1 0 [] (BDD_init order)))"
    then show "\<exists>val. formula1 (map_of e) = Inr val" using f1 b by blast
  next
    assume "{''a'', ''b'', ''c'', ''d''} \<subseteq> set order"
    then show "\<exists>root s. robdd_build formula1 0 [] (ROBDD_init order) = Inr (root, s)" by (rule t1)
  next
    assume "{''a'', ''b'', ''c'', ''d''} \<subseteq> set order"
    then show "\<exists>root s. bdd_build formula1 0 [] (BDD_init order) = Inr (root, s)" by (rule t2)
  next
    fix e assume "{''x1'', ''x2'', ''x3'', ''x4'', ''x5''} \<subseteq> set order"
      "e \<in> set (oracle_calls (bdd_trace formula2 0 [] (BDD_init order)))"
    then show "\<exists>val. formula2 (map_of e) = Inr val" using f2 b by blast
  next
    assume "{''x1'', ''x2'', ''x3'', ''x4'', ''x5''} \<subseteq> set order"
    then show "\<exists>root s. bdd_build formula2 0 [] (BDD_init order) = Inr (root, s)" by (rule t3)
  qed
qed

theorem formula_gets_complete_assignments_witness:
  "first_call1 \<in> set (oracle_calls (robdd_trace formula1 0 [] (ROBDD_init order1))) \<and>
   first_call1 \<in> set (oracle_calls (bdd_trace formula1 0 [] (BDD_init order1))) \<and>
   {''a'', ''b'', ''c'', ''d''} \<subseteq> set order1 \<and>
   complete order1 first_call1 \<and>
   (\<exists>val. formula1 (map_of first_call1) = Inr val) \<and>
   (\<exists>root s. robdd_build formula1 0 [] (ROBDD_init order1) = Inr (root, s)) \<and>
   (\<exists>root s. bdd_build formula1 0 [] (BDD_init order1) = Inr (root, s))"
proof -
  have m1: "first_call1 \<in> set (oracle_calls (robdd_trace formula1 0 [] (ROBDD_init order1)))"
    by code_simp
  have m2: "first_call1 \<in> set (oracle_calls (bdd_trace formula1 0 [] (BDD_init order1)))"
    by code_simp
  have sub: "{''a'', ''b'', ''c'', ''d''} \<subseteq> set order1" by (simp add: order1_def)
  from formula_gets_complete_assignments[of formula1 order1] m1 m2 sub show ?thesis
    by blast
qed

text \<open>
  C8. Scenario B: for the formula over x1..x5 that is 1 iff at least three of them
  are 1, every complete assignment with exactly three ones gives 1 and every one with
  exactly two ones gives 0; of the 32 assignments, exactly
  C(5,3) + C(5,4) + C(5,5) = 16 give 1; and the unreduced diagram built from the
  formula reaches terminal 1 and terminal 0 on them.
\<close>

theorem scenario_B:
  "(\<forall>A. complete order2 A \<longrightarrow>
      (count_ones order2 A = 3 \<longrightarrow> formula2 (map_of A) = Inr 1) \<and>
      (count_ones order2 A = 2 \<longrightarrow> formula2 (map_of A) = Inr 0)) \<and>
   length (all_assignments order2) = 32 \<and>
   (\<forall>A \<in> set (all_assignments order2). complete order2 A) \<and>
   length (filter (\<lambda>A. formula2 (map_of A) = Inr 1) (all_assignments order2)) = 16 \<and>
   (5 choose 3) + (5 choose 4) + (5 choose 5) = (16::nat) \<and>
   (\<exists>root s. bdd_build formula2 0 [] (BDD_init order2) = Inr (root, s) \<and>
      (\<forall>A. complete order2 A \<longrightarrow>
         (count_ones order2 A = 3 \<longrightarrow>
            traverse (length (nodes s)) (nodes s) (map_of A) root = Some 1) \<and>
         (count_ones order2 A = 2 \<longrightarrow>
            traverse (length (nodes s)) (nodes s) (map_of A) root = Some 0)))"
proof (intro conjI)
  show "\<forall>A. complete order2 A \<longrightarrow>
      (count_ones order2 A = 3 \<longrightarrow> formula2 (map_of A) = Inr 1) \<and>
      (count_ones order2 A = 2 \<longrightarrow> formula2 (map_of A) = Inr 0)"
    by (simp add: formula2_threshold)
  show "length (all_assignments order2) = 32" by code_simp
  show "\<forall>A \<in> set (all_assignments order2). complete order2 A" by code_simp
  show "length (filter (\<lambda>A. formula2 (map_of A) = Inr 1) (all_assignments order2)) = 16"
    by code_simp
  show "(5 choose 3) + (5 choose 4) + (5 choose 5) = (16::nat)" by code_simp
  have "\<exists>root s. bdd_build formula2 0 [] (BDD_init order2) = Inr (root, s)"
  proof (rule bdd_build_total)
    fix A assume "complete order2 A"
    then show "\<exists>val. formula2 (map_of A) = Inr val" by (simp add: formula2_threshold)
  qed
  then obtain root s where run: "bdd_build formula2 0 [] (BDD_init order2) = Inr (root, s)"
    by blast
  have "(count_ones order2 A = 3 \<longrightarrow>
            traverse (length (nodes s)) (nodes s) (map_of A) root = Some 1) \<and>
         (count_ones order2 A = 2 \<longrightarrow>
            traverse (length (nodes s)) (nodes s) (map_of A) root = Some 0)"
    if A: "complete order2 A" for A
    using bdd_build_equiv[OF run A] formula2_threshold[OF A] by auto
  with run show "\<exists>root s. bdd_build formula2 0 [] (BDD_init order2) = Inr (root, s) \<and>
      (\<forall>A. complete order2 A \<longrightarrow>
         (count_ones order2 A = 3 \<longrightarrow>
            traverse (length (nodes s)) (nodes s) (map_of A) root = Some 1) \<and>
         (count_ones order2 A = 2 \<longrightarrow>
            traverse (length (nodes s)) (nodes s) (map_of A) root = Some 0))"
    by blast
qed

theorem scenario_B_witness:
  "complete order2 three_ones \<and> count_ones order2 three_ones = 3 \<and>
   complete order2 two_ones \<and> count_ones order2 two_ones = 2 \<and>
   three_ones \<in> set (all_assignments order2) \<and>
   formula2 (map_of three_ones) = Inr 1 \<and> formula2 (map_of two_ones) = Inr 0 \<and>
   (\<exists>root s. bdd_build formula2 0 [] (BDD_init order2) = Inr (root, s) \<and>
      traverse (length (nodes s)) (nodes s) (map_of three_ones) root = Some 1 \<and>
      traverse (length (nodes s)) (nodes s) (map_of two_ones) root = Some 0)"
proof -
  have c3: "complete order2 three_ones" by code_simp
  have n3: "count_ones order2 three_ones = 3" by code_simp
  have c2: "complete order2 two_ones" by code_simp
  have n2: "count_ones order2 two_ones = 2" by code_simp
  have m: "three_ones \<in> set (all_assignments order2)" by code_simp
  note B = scenario_B
  from B c3 n3 have f3: "formula2 (map_of three_ones) = Inr 1" by blast
  from B c2 n2 have f2: "formula2 (map_of two_ones) = Inr 0" by blast
  from B obtain root s where
    run: "bdd_build formula2 0 [] (BDD_init order2) = Inr (root, s)" and
    tr: "\<forall>A. complete order2 A \<longrightarrow>
         (count_ones order2 A = 3 \<longrightarrow>
            traverse (length (nodes s)) (nodes s) (map_of A) root = Some 1) \<and>
         (count_ones order2 A = 2 \<longrightarrow>
            traverse (length (nodes s)) (nodes s) (map_of A) root = Some 0)"
    by blast
  from tr c3 n3 have t3: "traverse (length (nodes s)) (nodes s) (map_of three_ones) root = Some 1"
    by blast
  from tr c2 n2 have t2: "traverse (length (nodes s)) (nodes s) (map_of two_ones) root = Some 0"
    by blast
  from c3 n3 c2 n2 m f3 f2 run t3 t2 show ?thesis by blast
qed

end
